theory Spec2Isabelle
  imports Complex_Main "HOL-Library.AList" "HOL-Library.Sublist"
begin

section \<open>Strings as the program sees them\<close>

text \<open>
  Texts are lists of 8-bit characters: the UTF-16 code units below 256, that is ASCII and the
  Latin-1 supplement.  The classes \<^verbatim>\<open>[A-Z]\<close>, \<^verbatim>\<open>[a-z]\<close>, \<^verbatim>\<open>\d\<close> and \<^verbatim>\<open>\w\<close> of the regular
  expressions are the ASCII ones.  White space is the set that \<^verbatim>\<open>String.prototype.trim\<close> and the
  class \<^verbatim>\<open>\s\<close> recognise among these characters (tab, line feed, vertical tab, form feed,
  carriage return, space and the no-break space).

  \<^verbatim>\<open>toLowerCase\<close> maps the ASCII capitals and the Latin-1 capitals (codes 192 to 222 without the
  multiplication sign 215) to the letter 32 places further on, and leaves every other
  character of the range alone.  \<^verbatim>\<open>toUpperCase\<close> on one character is the converse on the ASCII
  and the Latin-1 small letters (codes 224 to 254 without the division sign 247) and turns the
  sharp s (223) into the two letters SS.  The capitals of the micro sign (181) and of the
  y with diaeresis (255) are code units above 255; they are the only two characters of the
  range whose upper case the 8-bit texts cannot hold, and \<open>toUpperCase1\<close> returns them unchanged.
\<close>

definition isUpper :: "char \<Rightarrow> bool" where
  "isUpper c = (65 \<le> (of_char c :: nat) \<and> (of_char c :: nat) \<le> 90)"

definition isLower :: "char \<Rightarrow> bool" where
  "isLower c = (97 \<le> (of_char c :: nat) \<and> (of_char c :: nat) \<le> 122)"

definition isDigit :: "char \<Rightarrow> bool" where
  "isDigit c = (48 \<le> (of_char c :: nat) \<and> (of_char c :: nat) \<le> 57)"

definition isWordChar :: "char \<Rightarrow> bool" where
  \<comment> \<open>the class \<^verbatim>\<open>\w\<close>\<close>
  "isWordChar c = (isUpper c \<or> isLower c \<or> isDigit c \<or> c = CHR ''_'')"

definition isSpace :: "char \<Rightarrow> bool" where
  \<comment> \<open>the class \<^verbatim>\<open>\s\<close>\<close>
  "isSpace c = ((of_char c :: nat) \<in> {9, 10, 11, 12, 13, 32, 160})"

definition isLatin1Upper :: "char \<Rightarrow> bool" where
  "isLatin1Upper c = (192 \<le> (of_char c :: nat) \<and> (of_char c :: nat) \<le> 222 \<and> (of_char c :: nat) \<noteq> 215)"

definition isLatin1Lower :: "char \<Rightarrow> bool" where
  "isLatin1Lower c = (224 \<le> (of_char c :: nat) \<and> (of_char c :: nat) \<le> 254 \<and> (of_char c :: nat) \<noteq> 247)"

definition lowerChar :: "char \<Rightarrow> char" where
  "lowerChar c = (if isUpper c \<or> isLatin1Upper c then char_of ((of_char c :: nat) + 32) else c)"

definition upperChar :: "char \<Rightarrow> char" where
  "upperChar c = (if isLower c \<or> isLatin1Lower c then char_of ((of_char c :: nat) - 32) else c)"

definition toUpperCase1 :: "char \<Rightarrow> string" where
  \<comment> \<open>\<^verbatim>\<open>c.toUpperCase()\<close> for a text of one character\<close>
  "toUpperCase1 c = (if c = CHR 0xDF then ''SS'' else [upperChar c])"

definition toLowerCase :: "string \<Rightarrow> string" where
  "toLowerCase s = map lowerChar s"

definition trimStart :: "string \<Rightarrow> string" where
  "trimStart s = dropWhile isSpace s"

definition trim :: "string \<Rightarrow> string" where
  "trim s = rev (dropWhile isSpace (rev (dropWhile isSpace s)))"

fun startsWith :: "string \<Rightarrow> string \<Rightarrow> bool" where
  "startsWith s [] = True"
| "startsWith [] (k # ks) = False"
| "startsWith (c # cs) (k # ks) = (c = k \<and> startsWith cs ks)"

fun str_includes :: "string \<Rightarrow> string \<Rightarrow> bool" where
  \<comment> \<open>\<^verbatim>\<open>s.includes(k)\<close>: \<open>k\<close> occurs in \<open>s\<close> as a contiguous substring\<close>
  "str_includes [] k = (k = [])"
| "str_includes (c # cs) k = (startsWith (c # cs) k \<or> str_includes cs k)"

section \<open>The result cache (utils/cache.ts)\<close>

datatype AIProvider = openai | claude | glm | openrouter

fun provider_name :: "AIProvider \<Rightarrow> string" where
  "provider_name openai = ''openai''"
| "provider_name claude = ''claude''"
| "provider_name glm = ''glm''"
| "provider_name openrouter = ''openrouter''"

record 'v CacheEntry =
  e_key :: string
  e_value :: 'v
  e_timestamp :: nat

record CacheStats =
  st_size :: int
  st_maxSize :: int
  st_hits :: int
  st_misses :: int
  st_evictions :: int

text \<open>
  The methods \<^verbatim>\<open>get\<close>, \<^verbatim>\<open>set\<close>, \<^verbatim>\<open>clear\<close>, \<^verbatim>\<open>size\<close> and \<^verbatim>\<open>has\<close> of the class are
  \<open>cache_get\<close>, \<open>cache_set\<close>, \<open>cache_clear\<close>, \<open>cache_size\<close> and \<open>cache_has\<close>; each takes the
  cache and, where it changes it, returns the new one.

  A JavaScript \<^verbatim>\<open>Map\<close> keeps its keys in insertion order: it is an association list with
  distinct keys.  \<^const>\<open>AList.update\<close> overwrites in place or appends at the end, as
  \<^verbatim>\<open>Map.prototype.set\<close> does, and \<^const>\<open>AList.delete\<close> removes the key.
\<close>

record 'v LRUCache =
  c_cache :: "(string \<times> 'v CacheEntry) list"
  c_maxSize :: int
  c_stats :: CacheStats

definition new_LRUCache :: "int \<Rightarrow> 'v LRUCache" where
  "new_LRUCache maxSize =
     \<lparr> c_cache = [], c_maxSize = maxSize,
       c_stats = \<lparr> st_size = 0, st_maxSize = maxSize, st_hits = 0, st_misses = 0,
                   st_evictions = 0 \<rparr> \<rparr>"

text \<open>
  The key is the SHA-256 digest, in hexadecimal, of the normalised input joined with the
  provider and the model.  The digest comes from the platform's crypto library; it is the
  parameter \<open>sha256\<close> of every operation that derives a key.
\<close>

definition generateKey :: "(string \<Rightarrow> string) \<Rightarrow> string \<Rightarrow> AIProvider \<Rightarrow> string \<Rightarrow> string" where
  "generateKey sha256 input provider model =
     (let normalized = toLowerCase (trim input);
          data = normalized @ ''::'' @ provider_name provider @ ''::'' @ model
      in sha256 data)"

definition cache_get ::
  "(string \<Rightarrow> string) \<Rightarrow> 'v LRUCache \<Rightarrow> string \<Rightarrow> AIProvider \<Rightarrow> string \<Rightarrow> 'v option \<times> 'v LRUCache" where
  "cache_get sha256 c input provider model =
     (let key = generateKey sha256 input provider model in
      case map_of (c_cache c) key of
        Some entry \<Rightarrow>
          (Some (e_value entry),
           c\<lparr> c_cache := AList.update key entry (AList.delete key (c_cache c)),
              c_stats := (c_stats c)\<lparr> st_hits := st_hits (c_stats c) + 1 \<rparr> \<rparr>)
      | None \<Rightarrow>
          (None, c\<lparr> c_stats := (c_stats c)\<lparr> st_misses := st_misses (c_stats c) + 1 \<rparr> \<rparr>))"

definition evict_oldest :: "'v LRUCache \<Rightarrow> 'v LRUCache" where
  \<comment> \<open>the body of \<^verbatim>\<open>if (this.cache.size >= this.maxSize)\<close>; an absent or empty first key is falsy\<close>
  "evict_oldest c =
     (case c_cache c of
        [] \<Rightarrow> c
      | (oldestKey, _) # _ \<Rightarrow>
          if oldestKey \<noteq> [] then
            c\<lparr> c_cache := AList.delete oldestKey (c_cache c),
               c_stats := (c_stats c)\<lparr> st_evictions := st_evictions (c_stats c) + 1 \<rparr> \<rparr>
          else c)"

definition cache_set ::
  "(string \<Rightarrow> string) \<Rightarrow> 'v LRUCache \<Rightarrow> string \<Rightarrow> AIProvider \<Rightarrow> string \<Rightarrow> 'v \<Rightarrow> nat \<Rightarrow> 'v LRUCache" where
  \<comment> \<open>\<open>now\<close> is the reading of \<^verbatim>\<open>Date.now()\<close>\<close>
  "cache_set sha256 c input provider model v now =
     (let key = generateKey sha256 input provider model;
          c1 = (if map_of (c_cache c) key \<noteq> None
                then c\<lparr> c_cache := AList.delete key (c_cache c) \<rparr> else c);
          c2 = (if int (length (c_cache c1)) \<ge> c_maxSize c1 then evict_oldest c1 else c1);
          c3 = c2\<lparr> c_cache := AList.update key
                   \<lparr> e_key = key, e_value = v, e_timestamp = now \<rparr> (c_cache c2) \<rparr>
      in c3\<lparr> c_stats := (c_stats c3)\<lparr> st_size := int (length (c_cache c3)) \<rparr> \<rparr>)"

definition cache_clear :: "'v LRUCache \<Rightarrow> 'v LRUCache" where
  "cache_clear c =
     c\<lparr> c_cache := [],
        c_stats := (c_stats c)\<lparr> st_size := 0, st_hits := 0, st_misses := 0, st_evictions := 0 \<rparr> \<rparr>"

definition getStats :: "'v LRUCache \<Rightarrow> CacheStats" where
  "getStats c = c_stats c"

definition cache_size :: "'v LRUCache \<Rightarrow> int" where
  "cache_size c = int (length (c_cache c))"

definition cache_has :: "(string \<Rightarrow> string) \<Rightarrow> 'v LRUCache \<Rightarrow> string \<Rightarrow> AIProvider \<Rightarrow> string \<Rightarrow> bool" where
  "cache_has sha256 c input provider model =
     (map_of (c_cache c) (generateKey sha256 input provider model) \<noteq> None)"

text \<open>
  Traces of cache operations, to state what holds after any sequence of them.  An operation
  accesses the key it derives; \<open>last_access\<close> is the position (counted from 1) of the last
  operation of a trace that accessed a key, and 0 when none did.
\<close>

datatype 'v cache_op =
    Get string AIProvider string
  | Set string AIProvider string 'v nat
  | Clear

fun apply_op :: "(string \<Rightarrow> string) \<Rightarrow> 'v LRUCache \<Rightarrow> 'v cache_op \<Rightarrow> 'v LRUCache" where
  "apply_op sha256 c (Get input provider model) = snd (cache_get sha256 c input provider model)"
| "apply_op sha256 c (Set input provider model v now) = cache_set sha256 c input provider model v now"
| "apply_op sha256 c Clear = cache_clear c"

definition run_ops :: "(string \<Rightarrow> string) \<Rightarrow> 'v cache_op list \<Rightarrow> 'v LRUCache \<Rightarrow> 'v LRUCache" where
  "run_ops sha256 ops c = foldl (apply_op sha256) c ops"

fun op_key :: "(string \<Rightarrow> string) \<Rightarrow> 'v cache_op \<Rightarrow> string option" where
  "op_key sha256 (Get input provider model) = Some (generateKey sha256 input provider model)"
| "op_key sha256 (Set input provider model v now) = Some (generateKey sha256 input provider model)"
| "op_key sha256 Clear = None"

definition last_access :: "(string \<Rightarrow> string) \<Rightarrow> 'v cache_op list \<Rightarrow> string \<Rightarrow> nat" where
  "last_access sha256 ops k = length (dropWhile (\<lambda>op. op_key sha256 op \<noteq> Some k) (rev ops))"

definition cache_keys :: "'v LRUCache \<Rightarrow> string list" where
  "cache_keys c = map fst (c_cache c)"

definition demo_digest :: "string \<Rightarrow> string" where
  \<comment> \<open>a stand-in for the digest, to run the model on concrete inputs: injective, never empty\<close>
  "demo_digest s = CHR ''#'' # s"

text \<open>Auxiliary notions for the proofs about the cache.\<close>

definition bounded :: "'v LRUCache \<Rightarrow> bool" where
  "bounded c \<longleftrightarrow> [] \<notin> fst ` set (c_cache c) \<and> int (length (c_cache c)) \<le> c_maxSize c"

definition set_keys :: "int \<Rightarrow> string \<Rightarrow> string list \<Rightarrow> string list" where
  "set_keys maxSize key ks =
     (let ks1 = removeAll key ks;
          ks2 = (if int (length ks1) \<ge> maxSize
                 then (case ks1 of [] \<Rightarrow> [] | k0 # _ \<Rightarrow> if k0 \<noteq> [] then removeAll k0 ks1 else ks1)
                 else ks1)
      in ks2 @ [key])"

definition recency_inv :: "(string \<Rightarrow> string) \<Rightarrow> 'v cache_op list \<Rightarrow> 'v LRUCache \<Rightarrow> bool" where
  "recency_inv H ops c \<longleftrightarrow>
     distinct (cache_keys c) \<and> [] \<notin> set (cache_keys c) \<and>
     sorted_wrt (\<lambda>a b. last_access H ops a < last_access H ops b) (cache_keys c)"

text \<open>A request to set a value, as an operation and by its key.\<close>

fun set_op :: "string \<times> AIProvider \<times> string \<times> 'v \<times> nat \<Rightarrow> 'v cache_op" where
  "set_op (i, p, m, v, t) = Set i p m v t"

fun request_key :: "(string \<Rightarrow> string) \<Rightarrow> string \<times> AIProvider \<times> string \<times> 'v \<times> nat \<Rightarrow> string" where
  "request_key H (i, p, m, v, t) = generateKey H i p m"

section \<open>Repairing the provider's response (core/ai-adapters.ts, OpenRouterAdapter)\<close>

definition dquote :: char where
  "dquote = CHR 0x22"

definition backslash :: char where
  "backslash = CHR 0x5C"

definition count_char :: "char \<Rightarrow> string \<Rightarrow> nat" where
  \<comment> \<open>\<^verbatim>\<open>(s.match(/c/g) || []).length\<close> for a single character \<open>c\<close>\<close>
  "count_char c s = length (filter (\<lambda>x. x = c) s)"

fun append_times :: "nat \<Rightarrow> char \<Rightarrow> string \<Rightarrow> string" where
  \<comment> \<open>\<^verbatim>\<open>for (let i = 0; i < n; i++) repaired += c\<close>\<close>
  "append_times 0 c repaired = repaired"
| "append_times (Suc n) c repaired = append_times n c (repaired @ [c])"

definition repairIncompleteJson :: "string \<Rightarrow> string" where
  "repairIncompleteJson jsonStr =
     (let repaired = trim jsonStr;
          openBraces = int (count_char CHR ''{'' repaired);
          closeBraces = int (count_char CHR ''}'' repaired);
          openBrackets = int (count_char CHR ''['' repaired);
          closeBrackets = int (count_char CHR '']'' repaired);
          quotes = count_char dquote repaired;
          repaired1 = (if quotes mod 2 \<noteq> 0 then repaired @ [dquote] else repaired);
          repaired2 = append_times (nat (openBrackets - closeBrackets)) CHR '']'' repaired1;
          repaired3 = append_times (nat (openBraces - closeBraces)) CHR ''}'' repaired2
      in repaired3)"

text \<open>
  \<^verbatim>\<open>fixUnescapedQuotes\<close> replaces every match of
  \<^verbatim>\<open>/"([^"]+)":\s*"([^"]*)"/g\<close> by the callback's result.  A match starting at a quote is
  determined: each of the two groups is a run of characters other than the quote that a quote
  must follow, so it is the maximal such run, and the white space before the second opening
  quote is the maximal run of white space.  \<open>match_key_value\<close> returns the matched text, the
  two groups and the text after the match.
\<close>

definition match_key_value :: "string \<Rightarrow> (string \<times> string \<times> string \<times> string) option" where
  "match_key_value s =
     (case s of
        [] \<Rightarrow> None
      | c # r1 \<Rightarrow>
          if c \<noteq> dquote then None
          else
            let key = takeWhile (\<lambda>x. x \<noteq> dquote) r1;
                r2 = dropWhile (\<lambda>x. x \<noteq> dquote) r1
            in if key = [] then None
               else (case r2 of
                       q # col # r3 \<Rightarrow>
                         if col \<noteq> CHR '':'' then None
                         else
                           let ws = takeWhile isSpace r3;
                               r4 = dropWhile isSpace r3
                           in (case r4 of
                                 [] \<Rightarrow> None
                               | q2 # r5 \<Rightarrow>
                                   if q2 \<noteq> dquote then None
                                   else
                                     let val = takeWhile (\<lambda>x. x \<noteq> dquote) r5;
                                         r6 = dropWhile (\<lambda>x. x \<noteq> dquote) r5
                                     in (case r6 of
                                           [] \<Rightarrow> None
                                         | q3 # rest \<Rightarrow>
                                             Some ([dquote] @ key @ [dquote] @ '':'' @ ws
                                                     @ [dquote] @ val @ [dquote],
                                                   key, val, rest)))
                     | _ \<Rightarrow> None))"

fun escape_quotes :: "string \<Rightarrow> string" where
  \<comment> \<open>\<^verbatim>\<open>value.replace(/"/g, '\\"')\<close>\<close>
  "escape_quotes [] = []"
| "escape_quotes (c # cs) =
     (if c = dquote then backslash # dquote # escape_quotes cs else c # escape_quotes cs)"

definition fix_callback :: "string \<Rightarrow> string \<Rightarrow> string \<Rightarrow> string" where
  "fix_callback matched key val =
     (if str_includes val [dquote] \<and> \<not> str_includes val [backslash, dquote]
      then (let fixedValue = escape_quotes val
            in [dquote] @ key @ [dquote] @ '': '' @ [dquote] @ fixedValue @ [dquote])
      else matched)"

function fixUnescapedQuotes :: "string \<Rightarrow> string" where
  "fixUnescapedQuotes [] = []"
| "fixUnescapedQuotes (c # cs) =
     (case match_key_value (c # cs) of
        Some (matched, key, val, rest) \<Rightarrow> fix_callback matched key val @ fixUnescapedQuotes rest
      | None \<Rightarrow> c # fixUnescapedQuotes cs)"
  by pat_completeness auto
termination
proof (relation "measure length")
  show "wf (measure length)" by simp
next
  fix c cs x2 matched y key ya val rest
  assume "match_key_value (c # cs) = Some x2" "(matched, y) = x2" "(key, ya) = y" "(val, rest) = ya"
  then have m: "match_key_value (c # cs) = Some (matched, key, val, rest)" by simp
  have "length rest < length (c # cs)"
  proof -
    from m obtain r2 where r2: "r2 = dropWhile (\<lambda>x. x \<noteq> dquote) cs"
      by simp
    have l2: "length r2 \<le> length cs" unfolding r2 by (rule length_dropWhile_le)
    from m obtain q col r3 where r3: "r2 = q # col # r3"
      unfolding match_key_value_def r2 Let_def
      by (auto split: if_splits list.splits)
    from m r3 obtain q2 r5 where r5: "dropWhile isSpace r3 = q2 # r5"
      unfolding match_key_value_def r2 Let_def
      by (auto split: if_splits list.splits)
    from m r3 r5 obtain q3 where r6: "dropWhile (\<lambda>x. x \<noteq> dquote) r5 = q3 # rest"
      unfolding match_key_value_def r2 Let_def
      by (auto split: if_splits list.splits)
    have "length rest < length r5"
      using length_dropWhile_le[of "\<lambda>x. x \<noteq> dquote" r5] r6 by simp
    moreover have "length r5 < length r3"
      using length_dropWhile_le[of isSpace r3] r5 by simp
    moreover have "length r3 < length cs" using l2 r3 by simp
    ultimately show ?thesis by simp
  qed
  then show "(rest, c # cs) \<in> measure length" by simp
next
  fix c cs
  assume "match_key_value (c # cs) = None"
  show "(cs, c # cs) \<in> measure length" by simp
qed


section \<open>Numbers\<close>

text \<open>
  A JavaScript number is an IEEE 754 double.  A finite double is held as a pair \<open>(m, e)\<close> of
  integers that denotes \<open>m * 2 ^ e\<close>: zero is \<open>(0, 0)\<close>, and every other double has a mantissa
  of exactly 53 bits, \<open>2 ^ 52 \<le> \<bar>m\<bar> < 2 ^ 53\<close>, so that equal numbers are equal pairs.
  \<open>to_double a b\<close> is the double nearest to the fraction \<open>a / b\<close> of a positive denominator,
  the tie going to the even mantissa; a decimal literal of the source is the double nearest to
  it, and the sum and the product of two doubles are the doubles nearest to the exact sum and
  product.  The exponent is not bounded: this is the arithmetic of the normal range, without
  subnormal numbers, infinities, NaN or a negative zero.  The numbers computed below are 0,
  whole numbers below 60 and fractions between 0.05 and 5.
\<close>

type_synonym double = "int \<times> int"

definition double_value :: "double \<Rightarrow> rat" where
  "double_value d =
     (if 0 \<le> snd d then of_int (fst d) * 2 ^ nat (snd d) else of_int (fst d) / 2 ^ nat (- snd d))"

function bits_from :: "int \<Rightarrow> int \<Rightarrow> nat" where
  \<comment> \<open>for \<open>p = 2 ^ k\<close>, the number of the powers \<open>2 ^ k, 2 ^ (k + 1), \<dots>\<close> that are at most \<open>a\<close>\<close>
  "bits_from p a = (if p \<le> 0 \<or> a < p then 0 else Suc (bits_from (2 * p) a))"
  by pat_completeness auto
termination by (relation "measure (\<lambda>(p, a). nat (a + 1 - p))") auto

definition bit_length :: "int \<Rightarrow> nat" where
  \<comment> \<open>the \<open>n\<close> with \<open>2 ^ (n - 1) \<le> a < 2 ^ n\<close> for a positive \<open>a\<close>\<close>
  "bit_length a = bits_from 1 a"

definition scaled :: "int \<Rightarrow> int \<Rightarrow> int \<Rightarrow> int \<times> int" where
  \<comment> \<open>numerator and denominator of \<open>a / b * 2 ^ n\<close>\<close>
  "scaled a b n = (if 0 \<le> n then (a * 2 ^ nat n, b) else (a, b * 2 ^ nat (- n)))"

definition to_double :: "int \<Rightarrow> int \<Rightarrow> double" where
  "to_double a b =
     (if a = 0 \<or> b \<le> 0 then (0, 0)
      else (let t = int (bit_length \<bar>a\<bar>) - int (bit_length b);
                \<comment> \<open>\<open>2 ^ (t - 1) < \<bar>a\<bar> / b < 2 ^ (t + 1)\<close>\<close>
                (x0, y0) = scaled \<bar>a\<bar> b (53 - t);
                n = (if 2 ^ 53 * y0 \<le> x0 then 52 - t else 53 - t);
                (x, y) = scaled \<bar>a\<bar> b n;
                \<comment> \<open>\<open>2 ^ 52 \<le> x / y < 2 ^ 53\<close>\<close>
                q = x div y;
                r = x mod y;
                m = (if 2 * r < y \<or> (2 * r = y \<and> even q) then q else q + 1)
            in if m = 2 ^ 53 then (sgn a * 2 ^ 52, 1 - n) else (sgn a * m, - n)))"

definition of_dyadic :: "int \<Rightarrow> int \<Rightarrow> double" where
  \<comment> \<open>the double nearest to \<open>m * 2 ^ e\<close>\<close>
  "of_dyadic m e = (if 0 \<le> e then to_double (m * 2 ^ nat e) 1 else to_double m (2 ^ nat (- e)))"

definition double_add :: "double \<Rightarrow> double \<Rightarrow> double" where
  "double_add x y =
     (let e = min (snd x) (snd y)
      in of_dyadic (fst x * 2 ^ nat (snd x - e) + fst y * 2 ^ nat (snd y - e)) e)"

definition double_mul :: "double \<Rightarrow> double \<Rightarrow> double" where
  "double_mul x y = of_dyadic (fst x * fst y) (snd x + snd y)"

definition double_less_eq :: "double \<Rightarrow> double \<Rightarrow> bool" where
  "double_less_eq x y =
     (let e = min (snd x) (snd y)
      in fst x * 2 ^ nat (snd x - e) \<le> fst y * 2 ^ nat (snd y - e))"

definition double_min :: "double \<Rightarrow> double \<Rightarrow> double" where
  \<comment> \<open>\<^verbatim>\<open>Math.min(x, y)\<close>\<close>
  "double_min x y = (if double_less_eq x y then x else y)"

section \<open>The heuristic parser (core/heuristic-parser.ts)\<close>

datatype Domain = frontend | backend | fullstack | mobile | infrastructure | testing | devops | data

fun domain_name :: "Domain \<Rightarrow> string" where
  "domain_name frontend = ''frontend''"
| "domain_name backend = ''backend''"
| "domain_name fullstack = ''fullstack''"
| "domain_name mobile = ''mobile''"
| "domain_name infrastructure = ''infrastructure''"
| "domain_name testing = ''testing''"
| "domain_name devops = ''devops''"
| "domain_name data = ''data''"

definition TECH_KEYWORDS :: "string list" where
  "TECH_KEYWORDS =
     [''react'', ''vue'', ''angular'', ''svelte'', ''next'', ''nuxt'',
      ''node'', ''express'', ''nestjs'', ''fastify'', ''koa'',
      ''django'', ''flask'', ''fastapi'', ''spring'', ''laravel'',
      ''postgres'', ''mysql'', ''mongodb'', ''redis'', ''elasticsearch'',
      ''docker'', ''kubernetes'', ''aws'', ''azure'', ''gcp'',
      ''typescript'', ''javascript'', ''python'', ''java'', ''go'', ''rust'',
      ''graphql'', ''rest'', ''grpc'', ''websocket'',
      ''jest'', ''mocha'', ''pytest'', ''junit'']"

definition DOMAIN_PATTERNS :: "(Domain \<times> string list) list" where
  \<comment> \<open>in declaration order, the order in which \<^verbatim>\<open>Object.entries\<close> lists the table\<close>
  "DOMAIN_PATTERNS =
     [(frontend, [''ui'', ''component'', ''dashboard'', ''page'', ''responsive'', ''interface'',
                  ''form'', ''button'', ''modal'', ''layout'']),
      (backend, [''api'', ''endpoint'', ''database'', ''authentication'', ''service'', ''server'',
                 ''auth'', ''jwt'', ''session'']),
      (fullstack, [''fullstack'', ''full-stack'', ''full stack'', ''end-to-end'', ''e2e'']),
      (mobile, [''mobile'', ''ios'', ''android'', ''app'', ''native'', ''react native'', ''flutter'']),
      (infrastructure, [''deployment'', ''ci/cd'', ''docker'', ''kubernetes'', ''infrastructure'',
                        ''devops'', ''cloud'']),
      (testing, [''test'', ''testing'', ''qa'', ''validation'', ''coverage'', ''unit test'',
                 ''integration test'']),
      (devops, [''pipeline'', ''automation'', ''monitoring'', ''logging'', ''deployment'', ''cicd'']),
      (data, [''analytics'', ''etl'', ''data pipeline'', ''warehouse'', ''bigquery'', ''spark'',
              ''airflow''])]"

definition ACTION_VERBS :: "string list" where
  "ACTION_VERBS =
     [''add'', ''create'', ''build'', ''implement'', ''develop'',
      ''update'', ''modify'', ''change'', ''edit'',
      ''delete'', ''remove'',
      ''display'', ''show'', ''render'', ''visualize'',
      ''handle'', ''process'', ''manage'',
      ''validate'', ''verify'', ''check'',
      ''integrate'', ''connect'',
      ''support'', ''enable'', ''allow'']"

record HeuristicOutput =
  h_title :: string
  h_domain :: "Domain option"
  h_description :: string
  h_requirements :: "string list"
  h_components :: "string list"
  h_tech_stack :: "string list"
  h_acceptance_criteria :: "string list"
  h_confidence :: double

text \<open>
  The errors the pipeline raises: the input check, the token lookup, the provider call
  (request, empty reply, reply that cannot be parsed) and the check of the mandatory fields,
  which the OpenRouter adapter reports with the list of missing fields.
\<close>

datatype error =
    InputTooShort
  | NoApiKey string
  | ProviderFailure string
  | MissingFields "string list"
  | MissingFieldsInResponse

subsection \<open>Splitting and joining\<close>

text \<open>
  \<^verbatim>\<open>s.split(/[...]+/)\<close> for a class of single characters: the pieces between the maximal runs
  of separator characters, an empty piece before a leading run and after a trailing one.
  The flag tells whether the previous character was a separator.
\<close>

fun split_scan :: "(char \<Rightarrow> bool) \<Rightarrow> string \<Rightarrow> bool \<Rightarrow> string \<Rightarrow> string list" where
  "split_scan sep cur in_sep [] = [rev cur]"
| "split_scan sep cur in_sep (c # cs) =
     (if sep c then (if in_sep then split_scan sep cur True cs
                     else rev cur # split_scan sep [] True cs)
      else split_scan sep (c # cur) False cs)"

definition split_runs :: "(char \<Rightarrow> bool) \<Rightarrow> string \<Rightarrow> string list" where
  "split_runs sep s = split_scan sep [] False s"

definition isTerminator :: "char \<Rightarrow> bool" where
  \<comment> \<open>the class \<^verbatim>\<open>[.!?]\<close>\<close>
  "isTerminator c = (c = CHR ''.'' \<or> c = CHR ''!'' \<or> c = CHR ''?'')"

fun join :: "string \<Rightarrow> string list \<Rightarrow> string" where
  "join sep [] = []"
| "join sep [x] = x"
| "join sep (x # y # ys) = x @ sep @ join sep (y # ys)"

definition capitalizeFirst :: "string \<Rightarrow> string" where
  \<comment> \<open>\<^verbatim>\<open>str.charAt(0).toUpperCase() + str.slice(1)\<close>\<close>
  "capitalizeFirst str = (case str of [] \<Rightarrow> [] | c # cs \<Rightarrow> toUpperCase1 c @ cs)"

definition splitIntoSentences :: "string \<Rightarrow> string list" where
  "splitIntoSentences text = filter (\<lambda>s. length s > 0) (map trim (split_runs isTerminator text))"

definition extractTitle :: "string list \<Rightarrow> string" where
  "extractTitle sentences =
     (case sentences of
        [] \<Rightarrow> ''Untitled Requirement''
      | first # _ \<Rightarrow>
          if length first \<le> 60 then capitalizeFirst first
          else (let words = take 8 (split_runs isSpace first)
                in capitalizeFirst (join '' '' words) @ ''...''))"

subsection \<open>Domain detection\<close>

definition initial_scores :: "(Domain \<times> int) list" where
  "initial_scores =
     [(frontend, 0), (backend, 0), (fullstack, 0), (mobile, 0), (infrastructure, 0),
      (testing, 0), (devops, 0), (data, 0)]"

definition increment :: "Domain \<Rightarrow> (Domain \<times> int) list \<Rightarrow> (Domain \<times> int) list" where
  \<comment> \<open>\<^verbatim>\<open>scores[domain] += 1\<close>: the key keeps its place\<close>
  "increment d scores = map (\<lambda>(d', n). if d' = d then (d', n + 1) else (d', n)) scores"

definition score_domains :: "string \<Rightarrow> (Domain \<times> int) list" where
  "score_domains lower =
     foldl (\<lambda>scores (domain, keywords).
              foldl (\<lambda>scores keyword.
                       if str_includes lower keyword then increment domain scores else scores)
                    scores keywords)
           initial_scores DOMAIN_PATTERNS"

definition sort_by_score_desc :: "(Domain \<times> int) list \<Rightarrow> (Domain \<times> int) list" where
  \<comment> \<open>\<^verbatim>\<open>entries.sort((a, b) => b[1] - a[1])\<close>: a stable sort, highest score first\<close>
  "sort_by_score_desc entries = sort_key (\<lambda>e. - snd e) entries"

definition detectDomain :: "string \<Rightarrow> Domain option" where
  "detectDomain text =
     (let lower = toLowerCase text;
          scores = score_domains lower;
          entries = sort_by_score_desc scores
      in case entries of
           [] \<Rightarrow> None
         | e # _ \<Rightarrow> if snd e > 0 then Some (fst e) else None)"

text \<open>
  The scores of the two loops in closed form: the score of a domain is the number of keywords
  of its table that occur in the lower-cased text, each keyword counted once.  The domains
  are ranked in declaration order.
\<close>

definition all_domains :: "Domain list" where
  "all_domains = [frontend, backend, fullstack, mobile, infrastructure, testing, devops, data]"

definition keywords_of :: "Domain \<Rightarrow> string list" where
  "keywords_of d = (case map_of DOMAIN_PATTERNS d of Some ks \<Rightarrow> ks | None \<Rightarrow> [])"

definition domain_score :: "string \<Rightarrow> Domain \<Rightarrow> int" where
  "domain_score text d = int (length (filter (str_includes (toLowerCase text)) (keywords_of d)))"

fun index_of :: "'a \<Rightarrow> 'a list \<Rightarrow> nat" where
  "index_of x [] = 0"
| "index_of x (y # ys) = (if x = y then 0 else Suc (index_of x ys))"

definition declaration_index :: "Domain \<Rightarrow> nat" where
  "declaration_index d = index_of d all_domains"

text \<open>
  The words of the specification, counting keyword occurrences: the score of a domain
  is the number of places of the lower-cased text at which a keyword of its table starts,
  and the domain chosen is the first declared one of the highest score, none when every
  score is zero.
\<close>

fun occurrences :: "string \<Rightarrow> string \<Rightarrow> nat" where
  "occurrences [] k = 0"
| "occurrences (c # cs) k = (if startsWith (c # cs) k then 1 else 0) + occurrences cs k"

definition occurrence_score :: "string \<Rightarrow> Domain \<Rightarrow> int" where
  "occurrence_score text d =
     int (sum_list (map (occurrences (toLowerCase text)) (keywords_of d)))"

definition detectDomain_by_occurrences :: "string \<Rightarrow> Domain option" where
  "detectDomain_by_occurrences text =
     (let best = fold (\<lambda>d b. if occurrence_score text b < occurrence_score text d then d else b)
                   (tl all_domains) (hd all_domains)
      in if 0 < occurrence_score text best then Some best else None)"

subsection \<open>Description, requirements and acceptance criteria\<close>

definition generateDescription :: "string list \<Rightarrow> string" where
  "generateDescription sentences =
     (if length sentences = 0 then []
      else (let descSentences = take 3 sentences;
                desc = join ''. '' descSentences
            in if length desc \<le> 500 then desc else take 497 desc @ ''...''))"

text \<open>
  Word boundaries.  \<open>at_boundary prev rest\<close> is the assertion \<^verbatim>\<open>\b\<close> at the position between the
  character \<open>prev\<close> (absent at the start of the text) and the text \<open>rest\<close> that follows: exactly
  one of the two sides is a word character.  Letters compare without regard to case under
  the flag \<^verbatim>\<open>i\<close>.
\<close>

definition at_boundary :: "char option \<Rightarrow> string \<Rightarrow> bool" where
  "at_boundary prev rest =
     ((case prev of None \<Rightarrow> False | Some c \<Rightarrow> isWordChar c)
        \<noteq> (case rest of [] \<Rightarrow> False | c # _ \<Rightarrow> isWordChar c))"

fun startsWith_ci :: "string \<Rightarrow> string \<Rightarrow> bool" where
  "startsWith_ci s [] = True"
| "startsWith_ci [] (k # ks) = False"
| "startsWith_ci (c # cs) (k # ks) = (lowerChar c = lowerChar k \<and> startsWith_ci cs ks)"

definition word_here :: "string \<Rightarrow> char option \<Rightarrow> string \<Rightarrow> bool" where
  \<comment> \<open>\<^verbatim>\<open>\bword\b\<close> matches at this position\<close>
  "word_here w prev s =
     (at_boundary prev s \<and> startsWith_ci s w
      \<and> at_boundary (if w = [] then prev else Some (last (take (length w) s))) (drop (length w) s))"

fun word_test :: "string \<Rightarrow> char option \<Rightarrow> string \<Rightarrow> bool" where
  \<comment> \<open>\<^verbatim>\<open>new RegExp(`\\b${w}\\b`, 'i').test(s)\<close>, scanning from the position after \<open>prev\<close>\<close>
  "word_test w prev [] = word_here w prev []"
| "word_test w prev (c # cs) = (word_here w prev (c # cs) \<or> word_test w (Some c) cs)"

definition hasActionVerb :: "string \<Rightarrow> bool" where
  "hasActionVerb lower = list_ex (\<lambda>verb. word_test verb None lower) ACTION_VERBS"

definition extractRequirements :: "string list \<Rightarrow> string list" where
  "extractRequirements sentences =
     (let requirements =
            map capitalizeFirst
              (filter (\<lambda>sentence. hasActionVerb (toLowerCase sentence) \<and> length sentence \<ge> 10)
                 sentences)
      in if length requirements = 0 then map capitalizeFirst sentences else requirements)"

definition extractAcceptanceCriteria :: "string list \<Rightarrow> string list" where
  "extractAcceptanceCriteria sentences =
     map capitalizeFirst
       (filter (\<lambda>sentence.
                  let lower = toLowerCase sentence
                  in str_includes lower ''should'' \<or> str_includes lower ''must''
                     \<or> str_includes lower ''needs to'' \<or> str_includes lower ''has to''
                     \<or> str_includes lower ''required to'')
          sentences)"

subsection \<open>Components and technology stack\<close>

definition set_add :: "string list \<Rightarrow> string \<Rightarrow> string list" where
  \<comment> \<open>\<^verbatim>\<open>Set.prototype.add\<close> on a set kept in insertion order\<close>
  "set_add xs x = (if x \<in> set xs then xs else xs @ [x])"

text \<open>
  The greedy part \<^verbatim>\<open>(?:[A-Z][a-z]+)*\<close>: the groups consumed and the text left.  A shorter
  match would end before a letter, where no word boundary is, so the pattern
  \<^verbatim>\<open>\b[A-Z][a-z]+(?:[A-Z][a-z]+)*\b\<close> matches at a position exactly when this greedy reading
  ends at a word boundary.
\<close>

function camel_groups :: "string \<Rightarrow> string \<times> string" where
  "camel_groups [] = ([], [])"
| "camel_groups (c # cs) =
     (if isUpper c \<and> takeWhile isLower cs \<noteq> []
      then (case camel_groups (dropWhile isLower cs) of
              (m, r) \<Rightarrow> (c # takeWhile isLower cs @ m, r))
      else ([], c # cs))"
  by pat_completeness auto
termination
proof (relation "measure length")
  show "wf (measure length)" by simp
next
  fix c :: char and cs :: string
  have "length (dropWhile isLower cs) \<le> length cs" by (rule length_dropWhile_le)
  then show "(dropWhile isLower cs, c # cs) \<in> measure length" by simp
qed

definition match_capitalized :: "char option \<Rightarrow> string \<Rightarrow> string option" where
  "match_capitalized prev s =
     (case s of
        [] \<Rightarrow> None
      | c # cs \<Rightarrow>
          if at_boundary prev s \<and> isUpper c \<and> takeWhile isLower cs \<noteq> []
          then (case camel_groups (dropWhile isLower cs) of
                  (m, r) \<Rightarrow>
                    let matched = c # takeWhile isLower cs @ m
                    in if at_boundary (Some (last matched)) r then Some matched else None)
          else None)"

fun capitalized_scan :: "nat \<Rightarrow> char option \<Rightarrow> string \<Rightarrow> string list" where
  \<comment> \<open>all matches from left to right; \<open>skip\<close> counts the characters a match still covers\<close>
  "capitalized_scan skip prev [] = []"
| "capitalized_scan (Suc k) prev (c # cs) = capitalized_scan k (Some c) cs"
| "capitalized_scan 0 prev (c # cs) =
     (case match_capitalized prev (c # cs) of
        Some matched \<Rightarrow> matched # capitalized_scan (length matched - 1) (Some c) cs
      | None \<Rightarrow> capitalized_scan 0 (Some c) cs)"

definition COMPONENT_SUFFIXES :: "string list" where
  "COMPONENT_SUFFIXES =
     [''Form'', ''Table'', ''List'', ''Card'', ''Modal'', ''Panel'', ''Service'', ''Manager'',
      ''Handler'', ''Controller'', ''View'']"

text \<open>
  \<^verbatim>\<open>/(\w+)(?:Form|Table|...|View)/gi\<close> at a position: the group \<^verbatim>\<open>(\w+)\<close> first takes the whole
  run of word characters and gives them back one at a time until a suffix follows it.
\<close>

fun backtrack_suffix :: "nat \<Rightarrow> string \<Rightarrow> string option" where
  "backtrack_suffix 0 s = None"
| "backtrack_suffix (Suc p) s =
     (case find (\<lambda>alt. startsWith_ci (drop (Suc p) s) alt) COMPONENT_SUFFIXES of
        Some alt \<Rightarrow> Some (take (Suc p + length alt) s)
      | None \<Rightarrow> backtrack_suffix p s)"

definition match_suffixed :: "string \<Rightarrow> string option" where
  "match_suffixed s = backtrack_suffix (length (takeWhile isWordChar s)) s"

fun suffixed_scan :: "nat \<Rightarrow> string \<Rightarrow> string list" where
  "suffixed_scan skip [] = []"
| "suffixed_scan (Suc k) (c # cs) = suffixed_scan k cs"
| "suffixed_scan 0 (c # cs) =
     (case match_suffixed (c # cs) of
        Some matched \<Rightarrow> matched # suffixed_scan (length matched - 1) cs
      | None \<Rightarrow> suffixed_scan 0 cs)"

definition extractComponents :: "string \<Rightarrow> string list" where
  "extractComponents text =
     (let capitalizedWords = capitalized_scan 0 None text;
          components = foldl set_add [] capitalizedWords;
          components = foldl set_add components (suffixed_scan 0 text)
      in take 10 components)"

definition detectTechStack :: "string list \<Rightarrow> string list" where
  "detectTechStack words =
     foldl (\<lambda>detected word.
              let lower = toLowerCase word
              in if lower \<in> set TECH_KEYWORDS then set_add detected (capitalizeFirst lower)
                 else detected)
           [] words"

subsection \<open>Confidence and the parser\<close>

text \<open>
  The confidence is a sum of doubles: each decimal literal is the double nearest to it and
  each \<^verbatim>\<open>+=\<close> and \<^verbatim>\<open>*\<close> rounds.
\<close>

definition calculateConfidence :: "string \<Rightarrow> double" where
  "calculateConfidence text =
     (let lower = toLowerCase text;
          score = to_double 0 1;
          score = (if length text > 100 then double_add score (to_double 2 10) else score);
          score = (if length text > 200 then double_add score (to_double 1 10) else score);
          techCount = length (filter (\<lambda>k. str_includes lower k) TECH_KEYWORDS);
          score = double_add score
                    (double_min (double_mul (to_double (int techCount) 1) (to_double 1 10))
                       (to_double 3 10));
          actionCount = length (filter (\<lambda>v. str_includes lower v) ACTION_VERBS);
          score = double_add score
                    (double_min (double_mul (to_double (int actionCount) 1) (to_double 5 100))
                       (to_double 2 10));
          domainKeywords = concat (map snd DOMAIN_PATTERNS);
          domainCount = length (filter (\<lambda>k. str_includes lower k) domainKeywords);
          score = double_add score
                    (double_min (double_mul (to_double (int domainCount) 1) (to_double 5 100))
                       (to_double 2 10))
      in double_min score (to_double 1 1))"

definition parse :: "string \<Rightarrow> error + HeuristicOutput" where
  "parse input =
     (let normalized = trim input
      in if length normalized < 20
         then Inl InputTooShort
         else (let sentences = splitIntoSentences normalized;
                   words = split_runs isSpace (toLowerCase normalized)
               in Inr \<lparr> h_title = extractTitle sentences,
                        h_domain = detectDomain normalized,
                        h_description = generateDescription sentences,
                        h_requirements = extractRequirements sentences,
                        h_components = extractComponents normalized,
                        h_tech_stack = detectTechStack words,
                        h_acceptance_criteria = extractAcceptanceCriteria sentences,
                        h_confidence = calculateConfidence normalized \<rparr>))"


text \<open>Auxiliary notion for the proof about the scoring loops: adding to one score.\<close>

definition add_to :: "Domain \<Rightarrow> int \<Rightarrow> (Domain \<times> int) list \<Rightarrow> (Domain \<times> int) list" where
  "add_to d n scores = map (\<lambda>(d', m). (d', if d' = d then m + n else m)) scores"

section \<open>The specification object and the adapters' validation (types/spec.ts, core/ai-adapters.ts)\<close>

datatype RefinementMethod = rm_ai | rm_wizard | rm_heuristic

record ProcessingMetadata =
  pm_provider :: AIProvider
  pm_model :: string
  pm_heuristic_confidence :: "double option"
  pm_ai_refinement_applied :: bool
  pm_cache_hit :: bool
  pm_refinement_method :: "RefinementMethod option"

record SpecMetadata =
  m_spec_version :: string
  m_generated_by :: string
  m_generated_at :: string
  m_input_hash :: string
  m_processing :: ProcessingMetadata

text \<open>
  A specification object as it exists at run time: every field may be absent (\<open>None\<close>),
  also the four that the type declares mandatory, since the object read from a provider's
  reply is cast to the type without conversion.  Fields beyond these are the extension part
  of the record.
\<close>

record VibeSpec =
  s_title :: "string option"
  s_domain :: "string option"
  s_description :: "string option"
  s_requirements :: "string list option"
  s_components :: "string list option"
  s_tech_stack :: "string list option"
  s_acceptance_criteria :: "string list option"
  s_ai_guidance :: "string option"
  s_metadata :: "SpecMetadata option"

definition truthy :: "string option \<Rightarrow> bool" where
  \<comment> \<open>an absent string and the empty string are falsy\<close>
  "truthy v = (case v of None \<Rightarrow> False | Some s \<Rightarrow> s \<noteq> [])"

definition missing_required :: "VibeSpec \<Rightarrow> string list" where
  \<comment> \<open>an array is truthy also when it is empty\<close>
  "missing_required parsed =
     (if \<not> truthy (s_title parsed) then [''title''] else [])
     @ (if \<not> truthy (s_domain parsed) then [''domain''] else [])
     @ (if \<not> truthy (s_description parsed) then [''description''] else [])
     @ (if s_requirements parsed = None then [''requirements''] else [])"

definition validate_openrouter :: "VibeSpec \<Rightarrow> error + VibeSpec" where
  "validate_openrouter parsed =
     (let missingFields = missing_required parsed
      in if length missingFields > 0 then Inl (MissingFields missingFields) else Inr parsed)"

definition validate_plain :: "VibeSpec \<Rightarrow> error + VibeSpec" where
  \<comment> \<open>the check of the OpenAI, Claude and GLM adapters\<close>
  "validate_plain parsed =
     (if \<not> truthy (s_title parsed) \<or> \<not> truthy (s_domain parsed)
         \<or> \<not> truthy (s_description parsed) \<or> s_requirements parsed = None
      then Inl MissingFieldsInResponse else Inr parsed)"

section \<open>Token resolution (utils/token-resolver.ts) and configuration (types/config.ts)\<close>

record VibesConfig =
  cfg_provider :: AIProvider
  cfg_model :: string
  cfg_useCache :: bool

fun provider_env :: "AIProvider \<Rightarrow> string" where
  "provider_env openai = ''OPENAI_API_KEY''"
| "provider_env claude = ''ANTHROPIC_API_KEY''"
| "provider_env glm = ''ZAI_API_KEY''"
| "provider_env openrouter = ''OPENROUTER_API_KEY''"

fun provider_model :: "AIProvider \<Rightarrow> string" where
  "provider_model openai = ''gpt-4o-mini''"
| "provider_model claude = ''claude-3-haiku-20240307''"
| "provider_model glm = ''glm-4.0''"
| "provider_model openrouter = ''meta-llama/llama-3.1-8b-instruct:free''"

definition resolve ::
  "(string \<times> string) list \<Rightarrow> string option \<Rightarrow> AIProvider \<Rightarrow> string option \<Rightarrow> string option" where
  \<comment> \<open>\<open>vars\<close> is the process environment, \<open>configKey\<close> the \<^verbatim>\<open>apiKey\<close> of the configuration file\<close>
  "resolve vars configKey provider cliToken =
     (if truthy cliToken then cliToken
      else if truthy (map_of vars (provider_env provider)) then map_of vars (provider_env provider)
      else if provider = glm \<and> truthy (map_of vars ''ZHIPUAI_API_KEY'')
        then map_of vars ''ZHIPUAI_API_KEY''
      else if truthy (map_of vars ''VIBES_AI_KEY'') then map_of vars ''VIBES_AI_KEY''
      else if truthy configKey then configKey
      else None)"

definition requireToken ::
  "(string \<times> string) list \<Rightarrow> string option \<Rightarrow> AIProvider \<Rightarrow> string option \<Rightarrow> error + string" where
  "requireToken vars configKey provider cliToken =
     (case resolve vars configKey provider cliToken of
        None \<Rightarrow> Inl (NoApiKey (provider_name provider))
      | Some token \<Rightarrow> if token = [] then Inl (NoApiKey (provider_name provider)) else Inr token)"

section \<open>The interactive wizard (core/wizard.ts)\<close>

text \<open>
  The answers are what the prompts hand back: the line typed at each input prompt (empty
  when the user only presses Enter, which selects the default), the choice made in the list
  of domains, the two confirmations, and the text left in the editor.  A prompt with a
  validator asks again until the validator accepts; \<open>wizard_validates\<close> states that the
  answers passed.
\<close>

record WizardAnswers =
  wa_title :: string
  wa_domain :: Domain
  wa_description :: string
  wa_editRequirements :: bool
  wa_newRequirements :: string
  wa_techStack :: string
  wa_components :: string
  wa_addAcceptanceCriteria :: bool
  wa_criteria :: string
  wa_aiGuidance :: string

definition prompt_input :: "string \<Rightarrow> string \<Rightarrow> string" where
  "prompt_input dflt typed = (if typed = [] then dflt else typed)"

fun split_char_acc :: "char \<Rightarrow> string \<Rightarrow> string \<Rightarrow> string list" where
  "split_char_acc sep cur [] = [rev cur]"
| "split_char_acc sep cur (c # cs) =
     (if c = sep then rev cur # split_char_acc sep [] cs else split_char_acc sep (c # cur) cs)"

definition split_char :: "char \<Rightarrow> string \<Rightarrow> string list" where
  \<comment> \<open>\<^verbatim>\<open>s.split(c)\<close> for a single character\<close>
  "split_char sep s = split_char_acc sep [] s"

definition comma_list :: "string \<Rightarrow> string list" where
  \<comment> \<open>the \<^verbatim>\<open>filter\<close> of the comma-separated prompts\<close>
  "comma_list input = filter (\<lambda>t. length t > 0) (map trim (split_char CHR '','' input))"

definition wizard_extractTitle :: "string \<Rightarrow> string" where
  "wizard_extractTitle input =
     (let firstSentence = trim (takeWhile (\<lambda>c. \<not> isTerminator c) input)
      in if length firstSentence > 100 then take 97 firstSentence @ ''...'' else firstSentence)"

fun guidance :: "Domain \<Rightarrow> string" where
  "guidance frontend = ''Focus on responsive design, component reusability, and user experience.''"
| "guidance backend = ''Ensure proper API design, error handling, and database optimization.''"
| "guidance fullstack = ''Maintain clear separation between frontend and backend concerns.''"
| "guidance mobile = ''Optimize for performance and follow platform-specific guidelines.''"
| "guidance infrastructure = ''Prioritize security, scalability, and monitoring.''"
| "guidance testing = ''Aim for high code coverage and include integration tests.''"
| "guidance devops = ''Automate repetitive tasks and ensure reproducible deployments.''"
| "guidance data = ''Focus on data quality, pipeline reliability, and efficient processing.''"

definition generateGuidance :: "Domain \<Rightarrow> string list \<Rightarrow> string" where
  "generateGuidance d techStack =
     (let baseGuidance = guidance d
      in if length techStack > 0
         then baseGuidance @ '' Consider '' @ join '', '' (take 3 techStack) @ '' best practices.''
         else baseGuidance)"

definition wizard_title :: "string \<Rightarrow> HeuristicOutput \<Rightarrow> WizardAnswers \<Rightarrow> string" where
  "wizard_title input heuristicOutput a =
     prompt_input (if h_title heuristicOutput \<noteq> [] then h_title heuristicOutput
                   else wizard_extractTitle input) (wa_title a)"

definition wizard_description :: "string \<Rightarrow> HeuristicOutput \<Rightarrow> WizardAnswers \<Rightarrow> string" where
  "wizard_description input heuristicOutput a =
     prompt_input (if h_description heuristicOutput \<noteq> [] then h_description heuristicOutput
                   else take 200 input) (wa_description a)"

definition wizard_validates :: "string \<Rightarrow> HeuristicOutput \<Rightarrow> WizardAnswers \<Rightarrow> bool" where
  "wizard_validates input heuristicOutput a =
     (length (wizard_title input heuristicOutput a) \<ge> 5
      \<and> length (wizard_description input heuristicOutput a) \<ge> 10
      \<and> length (wizard_description input heuristicOutput a) \<le> 500)"

definition wizard_refine :: "string \<Rightarrow> HeuristicOutput \<Rightarrow> WizardAnswers \<Rightarrow> VibeSpec" where
  \<comment> \<open>the detected requirements are the heuristic ones: an array is truthy, so the wizard's own
      extraction from the input is never reached\<close>
  "wizard_refine input heuristicOutput a =
     (let title = wizard_title input heuristicOutput a;
          domain = wa_domain a;
          description = wizard_description input heuristicOutput a;
          detectedReqs = h_requirements heuristicOutput;
          requirements =
            (if wa_editRequirements a
             then filter (\<lambda>r. length r > 0) (map trim (split_char CHR 0x0A (wa_newRequirements a)))
             else detectedReqs);
          detectedTech = h_tech_stack heuristicOutput;
          techStack = comma_list (prompt_input (join '', '' detectedTech) (wa_techStack a));
          detectedComponents = h_components heuristicOutput;
          components =
            comma_list (prompt_input (join '', '' (take 10 detectedComponents)) (wa_components a));
          acceptanceCriteria =
            (if wa_addAcceptanceCriteria a
             then comma_list
                    (prompt_input ''All features implemented, Tests pass, Documentation complete''
                       (wa_criteria a))
             else []);
          aiGuidance = prompt_input (generateGuidance domain techStack) (wa_aiGuidance a)
      in \<lparr> s_title = Some title, s_domain = Some (domain_name domain),
           s_description = Some description, s_requirements = Some requirements,
           s_components = Some components, s_tech_stack = Some techStack,
           s_acceptance_criteria = Some acceptanceCriteria, s_ai_guidance = Some aiGuidance,
           s_metadata = None \<rparr>)"


section \<open>The processing pipeline (core/processor.ts)\<close>

record ProcessorOptions =
  opt_provider :: "AIProvider option"
  opt_model :: "string option"
  opt_token :: "string option"
  opt_useCache :: "bool option"
  opt_enableWizard :: "bool option"

text \<open>
  What the outside world answers during one call: the loaded configuration, the process
  environment and the key of the configuration file (for the token lookup), the outcome of
  the provider call (an error, or the object read from the reply, before the adapter checks
  its mandatory fields), whether a terminal is attached, the answer to the offer of the
  wizard, the wizard's answers, and the clock.
\<close>

record Environment =
  env_config :: VibesConfig
  env_vars :: "(string \<times> string) list"
  env_configKey :: "string option"
  env_reply :: "error + VibeSpec"
  env_isTTY :: bool
  env_useWizard :: bool
  env_answers :: WizardAnswers
  env_now :: nat
  env_date :: string

definition heuristicToSpec :: "HeuristicOutput \<Rightarrow> VibeSpec" where
  "heuristicToSpec heuristic =
     \<lparr> s_title = Some (if h_title heuristic \<noteq> [] then h_title heuristic
                        else ''Untitled Requirement''),
       s_domain = Some (case h_domain heuristic of Some d \<Rightarrow> domain_name d
                                                  | None \<Rightarrow> ''fullstack''),
       s_description = Some (if h_description heuristic \<noteq> [] then h_description heuristic
                              else ''No description available''),
       s_requirements = Some (h_requirements heuristic),
       s_components = Some (h_components heuristic),
       s_tech_stack = Some (h_tech_stack heuristic),
       s_acceptance_criteria = Some (h_acceptance_criteria heuristic),
       s_ai_guidance = Some ''Generated using heuristic parsing only. Consider refining manually.'',
       s_metadata = None \<rparr>"

definition createMetadata ::
  "(string \<Rightarrow> string) \<Rightarrow> string \<Rightarrow> string \<Rightarrow> AIProvider \<Rightarrow> string \<Rightarrow> double \<Rightarrow> bool \<Rightarrow> bool
     \<Rightarrow> SpecMetadata" where
  \<comment> \<open>\<open>date\<close> is the reading of \<^verbatim>\<open>new Date().toISOString()\<close>\<close>
  "createMetadata sha256 date input provider model heuristicConfidence aiRefinementApplied cacheHit =
     (let inputHash = sha256 (toLowerCase (trim input))
      in \<lparr> m_spec_version = ''1.0.0'',
           m_generated_by = ''vibes-cli v5.0.0'',
           m_generated_at = date,
           m_input_hash = inputHash,
           m_processing =
             \<lparr> pm_provider = provider, pm_model = model,
               pm_heuristic_confidence = Some heuristicConfidence,
               pm_ai_refinement_applied = aiRefinementApplied,
               pm_cache_hit = cacheHit,
               pm_refinement_method = None \<rparr> \<rparr>)"

definition set_metadata :: "VibeSpec \<Rightarrow> SpecMetadata \<Rightarrow> RefinementMethod \<Rightarrow> VibeSpec" where
  \<comment> \<open>\<^verbatim>\<open>spec.metadata = m; spec.metadata.processing.refinement_method = method\<close>\<close>
  "set_metadata spec m method =
     spec\<lparr> s_metadata :=
             Some (m\<lparr> m_processing := (m_processing m)\<lparr> pm_refinement_method := Some method \<rparr> \<rparr>) \<rparr>"

definition adapter_refine :: "AIProvider \<Rightarrow> Environment \<Rightarrow> error + VibeSpec" where
  \<comment> \<open>\<^verbatim>\<open>createAIAdapter(provider, apiKey, model).refine(...)\<close>: the provider's reply, checked by
      the adapter of that provider\<close>
  "adapter_refine provider env =
     (case env_reply env of
        Inl e \<Rightarrow> Inl e
      | Inr parsed \<Rightarrow>
          (case provider of
             openrouter \<Rightarrow> validate_openrouter parsed
           | _ \<Rightarrow> validate_plain parsed))"

definition ai_refinement :: "Environment \<Rightarrow> AIProvider \<Rightarrow> ProcessorOptions \<Rightarrow> error + VibeSpec" where
  \<comment> \<open>the body of the \<^verbatim>\<open>try\<close> block, before the metadata is attached\<close>
  "ai_refinement env provider options =
     (case requireToken (env_vars env) (env_configKey env) provider (opt_token options) of
        Inl e \<Rightarrow> Inl e
      | Inr apiKey \<Rightarrow> adapter_refine provider env)"

definition chosen_provider :: "Environment \<Rightarrow> ProcessorOptions \<Rightarrow> AIProvider" where
  "chosen_provider env options =
     (case opt_provider options of Some p \<Rightarrow> p | None \<Rightarrow> cfg_provider (env_config env))"

definition chosen_model :: "Environment \<Rightarrow> ProcessorOptions \<Rightarrow> string" where
  "chosen_model env options =
     (if truthy (opt_model options) then the (opt_model options)
      else if opt_provider options \<noteq> None
              \<and> opt_provider options \<noteq> Some (cfg_provider (env_config env))
        then provider_model (chosen_provider env options)
      else cfg_model (env_config env))"

definition chosen_useCache :: "Environment \<Rightarrow> ProcessorOptions \<Rightarrow> bool" where
  "chosen_useCache env options =
     (case opt_useCache options of Some b \<Rightarrow> b | None \<Rightarrow> cfg_useCache (env_config env))"

definition wizard_enabled :: "ProcessorOptions \<Rightarrow> bool" where
  \<comment> \<open>\<^verbatim>\<open>options.enableWizard !== undefined ? options.enableWizard : true\<close>\<close>
  "wizard_enabled options = (case opt_enableWizard options of Some b \<Rightarrow> b | None \<Rightarrow> True)"

definition refine_or_fall_back ::
  "(string \<Rightarrow> string) \<Rightarrow> Environment \<Rightarrow> ProcessorOptions \<Rightarrow> string \<Rightarrow> HeuristicOutput
     \<Rightarrow> VibeSpec \<times> bool" where
  \<comment> \<open>the \<^verbatim>\<open>try\<close>/\<^verbatim>\<open>catch\<close> of stage 2: the specification and the flag \<^verbatim>\<open>aiRefinementApplied\<close>\<close>
  "refine_or_fall_back sha256 env options normalized heuristicOutput =
     (let provider = chosen_provider env options;
          model = chosen_model env options;
          meta = (\<lambda>applied. createMetadata sha256 (env_date env) normalized provider model
                               (h_confidence heuristicOutput) applied False)
      in case ai_refinement env provider options of
           Inr spec \<Rightarrow> (set_metadata spec (meta True) rm_ai, True)
         | Inl e \<Rightarrow>
             (let enableWizard = wizard_enabled options
              in if enableWizard \<and> env_isTTY env then
                   (if env_useWizard env
                    then (set_metadata (wizard_refine normalized heuristicOutput (env_answers env))
                            (meta True) rm_wizard, True)
                    else (set_metadata (heuristicToSpec heuristicOutput) (meta False) rm_heuristic,
                          False))
                 else (set_metadata (heuristicToSpec heuristicOutput) (meta False) rm_heuristic,
                       False)))"

definition process ::
  "(string \<Rightarrow> string) \<Rightarrow> Environment \<Rightarrow> VibeSpec LRUCache \<Rightarrow> string \<Rightarrow> ProcessorOptions
     \<Rightarrow> error + VibeSpec \<times> VibeSpec LRUCache" where
  "process sha256 env cache input options =
     (if input = [] \<or> length (trim input) < 20 then Inl InputTooShort
      else
        (let normalized = trim input;
             provider = chosen_provider env options;
             model = chosen_model env options;
             useCache = chosen_useCache env options;
             (cached, cache1) =
               (if useCache then cache_get sha256 cache normalized provider model
                else (None, cache))
         in case cached of
              Some spec \<Rightarrow> Inr (spec, cache1)
            | None \<Rightarrow>
                (case parse normalized of
                   Inl e \<Rightarrow> Inl e
                 | Inr heuristicOutput \<Rightarrow>
                     (let (spec, aiRefinementApplied) =
                            refine_or_fall_back sha256 env options normalized heuristicOutput;
                          cache2 =
                            (if useCache \<and> aiRefinementApplied
                             then cache_set sha256 cache1 normalized provider model spec (env_now env)
                             else cache1)
                      in Inr (spec, cache2)))))"

text \<open>The four mandatory fields, as the adapters check them, and the same for a whole cache.\<close>

definition mandatory_fields :: "VibeSpec \<Rightarrow> bool" where
  "mandatory_fields spec \<longleftrightarrow>
     truthy (s_title spec) \<and> truthy (s_domain spec) \<and> truthy (s_description spec)
     \<and> s_requirements spec \<noteq> None"

definition cache_valid :: "VibeSpec LRUCache \<Rightarrow> bool" where
  "cache_valid cache \<longleftrightarrow> list_all (\<lambda>p. mandatory_fields (e_value (snd p))) (c_cache cache)"

definition refinement_method :: "VibeSpec \<Rightarrow> RefinementMethod option" where
  "refinement_method spec =
     (case s_metadata spec of None \<Rightarrow> None | Some m \<Rightarrow> pm_refinement_method (m_processing m))"

definition cache_hit :: "VibeSpec \<Rightarrow> bool option" where
  "cache_hit spec =
     (case s_metadata spec of None \<Rightarrow> None | Some m \<Rightarrow> Some (pm_cache_hit (m_processing m)))"


text \<open>Concrete surroundings, to run the pipeline on examples.\<close>

definition no_options :: ProcessorOptions where
  "no_options = \<lparr> opt_provider = None, opt_model = None, opt_token = None, opt_useCache = None,
                  opt_enableWizard = None \<rparr>"

definition DEFAULT_CONFIG :: VibesConfig where
  "DEFAULT_CONFIG = \<lparr> cfg_provider = openai, cfg_model = ''gpt-4o-mini'', cfg_useCache = True \<rparr>"

definition demo_answers :: WizardAnswers where
  "demo_answers =
     \<lparr> wa_title = ''Login form'', wa_domain = frontend, wa_description = ''A form to log in with'',
       wa_editRequirements = False, wa_newRequirements = [], wa_techStack = [],
       wa_components = [], wa_addAcceptanceCriteria = False, wa_criteria = [],
       wa_aiGuidance = [] \<rparr>"

definition demo_reply :: VibeSpec where
  "demo_reply =
     \<lparr> s_title = Some ''X'', s_domain = Some ''backend'', s_description = Some ''Y'',
       s_requirements = Some [''a''], s_components = None, s_tech_stack = None,
       s_acceptance_criteria = None, s_ai_guidance = None, s_metadata = None \<rparr>"

definition env_offline :: Environment where
  \<comment> \<open>no key for any provider, no terminal\<close>
  "env_offline =
     \<lparr> env_config = DEFAULT_CONFIG, env_vars = [], env_configKey = None,
       env_reply = Inl (ProviderFailure ''no reply''), env_isTTY = False, env_useWizard = False,
       env_answers = demo_answers, env_now = 0, env_date = ''2025-01-01T00:00:00.000Z'' \<rparr>"

definition env_wizard :: Environment where
  \<comment> \<open>no key for any provider, a terminal, and a user who accepts the wizard\<close>
  "env_wizard = env_offline\<lparr> env_isTTY := True, env_useWizard := True \<rparr>"

definition env_online :: Environment where
  \<comment> \<open>a key for the default provider, which replies with a complete object\<close>
  "env_online =
     env_offline\<lparr> env_vars := [(''OPENAI_API_KEY'', ''sk-demo'')], env_reply := Inr demo_reply \<rparr>"

definition demo_input :: string where
  "demo_input = ''Build a login form UI''"

section \<open>Evaluating the character classes\<close>

text \<open>
  The character classes and the case conversions, computed on the bits of a character.
  These equations are the ones used when the model is run on concrete texts.
\<close>

lemma of_char_bits:
  "(of_char (Char b0 b1 b2 b3 b4 b5 b6 b7) :: nat) =
     of_bool b0 + 2 * of_bool b1 + 4 * of_bool b2 + 8 * of_bool b3 + 16 * of_bool b4
       + 32 * of_bool b5 + 64 * of_bool b6 + 128 * of_bool b7"
  by simp

lemma isUpper_code [code]:
  "isUpper (Char b0 b1 b2 b3 b4 b5 b6 b7) \<longleftrightarrow>
     \<not> b7 \<and> b6 \<and> \<not> b5 \<and> (b0 \<or> b1 \<or> b2 \<or> b3 \<or> b4) \<and> \<not> (b4 \<and> b3 \<and> (b2 \<or> b1 \<and> b0))"
  unfolding isUpper_def of_char_bits
  by (cases b0; cases b1; cases b2; cases b3; cases b4; cases b5; cases b6; cases b7) simp_all

lemma isLower_code [code]:
  "isLower (Char b0 b1 b2 b3 b4 b5 b6 b7) \<longleftrightarrow>
     \<not> b7 \<and> b6 \<and> b5 \<and> (b0 \<or> b1 \<or> b2 \<or> b3 \<or> b4) \<and> \<not> (b4 \<and> b3 \<and> (b2 \<or> b1 \<and> b0))"
  unfolding isLower_def of_char_bits
  by (cases b0; cases b1; cases b2; cases b3; cases b4; cases b5; cases b6; cases b7) simp_all

lemma isDigit_code [code]:
  "isDigit (Char b0 b1 b2 b3 b4 b5 b6 b7) \<longleftrightarrow>
     \<not> b7 \<and> \<not> b6 \<and> b5 \<and> b4 \<and> \<not> (b3 \<and> (b2 \<or> b1))"
  unfolding isDigit_def of_char_bits
  by (cases b0; cases b1; cases b2; cases b3; cases b4; cases b5; cases b6; cases b7) simp_all

lemma of_char_eq_numeral: "(of_char c :: nat) = of_char d \<longleftrightarrow> c = d"
  by simp

lemma isSpace_code [code]:
  "isSpace c \<longleftrightarrow> c = CHR 0x09 \<or> c = CHR 0x0A \<or> c = CHR 0x0B \<or> c = CHR 0x0C \<or> c = CHR 0x0D
     \<or> c = CHR 0x20 \<or> c = CHR 0xA0"
proof -
  have e: "(of_char c :: nat) = 9 \<longleftrightarrow> c = CHR 0x09" "(of_char c :: nat) = 10 \<longleftrightarrow> c = CHR 0x0A"
    "(of_char c :: nat) = 11 \<longleftrightarrow> c = CHR 0x0B" "(of_char c :: nat) = 12 \<longleftrightarrow> c = CHR 0x0C"
    "(of_char c :: nat) = 13 \<longleftrightarrow> c = CHR 0x0D" "(of_char c :: nat) = 32 \<longleftrightarrow> c = CHR 0x20"
    "(of_char c :: nat) = 160 \<longleftrightarrow> c = CHR 0xA0"
    using of_char_eq_numeral[of c "CHR 0x09"] of_char_eq_numeral[of c "CHR 0x0A"]
      of_char_eq_numeral[of c "CHR 0x0B"] of_char_eq_numeral[of c "CHR 0x0C"]
      of_char_eq_numeral[of c "CHR 0x0D"] of_char_eq_numeral[of c "CHR 0x20"]
      of_char_eq_numeral[of c "CHR 0xA0"] by simp_all
  show ?thesis unfolding isSpace_def by (simp only: insert_iff empty_iff e) blast
qed

lemma isLatin1Upper_code [code]:
  "isLatin1Upper (Char b0 b1 b2 b3 b4 b5 b6 b7) \<longleftrightarrow>
     b7 \<and> b6 \<and> \<not> b5 \<and> \<not> (b4 \<and> b2 \<and> b1 \<and> b0)"
  unfolding isLatin1Upper_def of_char_bits
  by (cases b0; cases b1; cases b2; cases b3; cases b4; cases b5; cases b6; cases b7) simp_all

lemma isLatin1Lower_code [code]:
  "isLatin1Lower (Char b0 b1 b2 b3 b4 b5 b6 b7) \<longleftrightarrow>
     b7 \<and> b6 \<and> b5 \<and> \<not> (b4 \<and> b2 \<and> b1 \<and> b0)"
  unfolding isLatin1Lower_def of_char_bits
  by (cases b0; cases b1; cases b2; cases b3; cases b4; cases b5; cases b6; cases b7) simp_all

lemma lowerChar_code [code]:
  "lowerChar (Char b0 b1 b2 b3 b4 b5 b6 b7) =
     (if isUpper (Char b0 b1 b2 b3 b4 b5 b6 b7) \<or> isLatin1Upper (Char b0 b1 b2 b3 b4 b5 b6 b7)
      then Char b0 b1 b2 b3 b4 True b6 b7
      else Char b0 b1 b2 b3 b4 b5 b6 b7)"
  unfolding lowerChar_def isUpper_code isLatin1Upper_code of_char_bits
  by (cases b0; cases b1; cases b2; cases b3; cases b4; cases b5; cases b6; cases b7)
     (auto intro!: of_char_eqI[where ?'a = nat])

lemma upperChar_code [code]:
  "upperChar (Char b0 b1 b2 b3 b4 b5 b6 b7) =
     (if isLower (Char b0 b1 b2 b3 b4 b5 b6 b7) \<or> isLatin1Lower (Char b0 b1 b2 b3 b4 b5 b6 b7)
      then Char b0 b1 b2 b3 b4 False b6 b7
      else Char b0 b1 b2 b3 b4 b5 b6 b7)"
  unfolding upperChar_def isLower_code isLatin1Lower_code of_char_bits
  by (cases b0; cases b1; cases b2; cases b3; cases b4; cases b5; cases b6; cases b7)
     (auto intro!: of_char_eqI[where ?'a = nat])

section \<open>Rounding\<close>

text \<open>
  The literal \<^verbatim>\<open>0.1\<close> is the double \<^verbatim>\<open>0x1.999999999999ap-4\<close>, a little above one tenth, and the
  sum \<^verbatim>\<open>0.1 + 0.05\<close> is the double \<^verbatim>\<open>0x1.3333333333334p-3\<close>, printed
  \<^verbatim>\<open>0.15000000000000002\<close>, and not the double nearest to three twentieths.
\<close>

lemma to_double_one_tenth:
  "to_double 1 10 = (0x1999999999999A, - 56)
   \<and> double_value (to_double 1 10) - 1 / 10 = 1 / (10 * 2 ^ 54)"
  by code_simp

lemma double_add_rounds:
  "double_add (to_double 1 10) (to_double 5 100) = (0x13333333333334, - 55)
   \<and> to_double 15 100 = (0x13333333333333, - 55)"
  by code_simp

section \<open>Properties of the cache\<close>

text \<open>
  C9. \<^verbatim>\<open>clear()\<close> removes every entry and resets the counters: the statistics read right
  after a clear report size 0, hits 0, misses 0 and evictions 0, whatever the cache held.
\<close>

theorem clear_resets_stats:
  "st_size (getStats (cache_clear c)) = 0 \<and> st_hits (getStats (cache_clear c)) = 0
   \<and> st_misses (getStats (cache_clear c)) = 0 \<and> st_evictions (getStats (cache_clear c)) = 0
   \<and> c_cache (cache_clear c) = [] \<and> cache_size (cache_clear c) = 0"
  by (simp add: getStats_def cache_clear_def cache_size_def)

subsection \<open>The number of entries stays within the capacity\<close>

lemma delete_length_le: "length (AList.delete k xs) \<le> length xs"
  by (simp add: AList.delete_eq)

lemma delete_head_length: "length (AList.delete k ((k, v) # xs)) \<le> length xs"
  by (simp add: AList.delete_eq le_SucI)

lemma update_length_le: "length (AList.update k v xs) \<le> Suc (length xs)"
  by (induction xs) auto

lemma evict_oldest_length:
  "c_cache c \<noteq> [] \<Longrightarrow> [] \<notin> fst ` set (c_cache c) \<Longrightarrow> length (c_cache (evict_oldest c)) < length (c_cache c)"
  unfolding evict_oldest_def
  by (cases "c_cache c") (auto simp: AList.delete_eq split: prod.splits intro: le_imp_less_Suc)

lemma keys_update: "fst ` set (AList.update k v xs) = insert k (fst ` set xs)"
  by (induction xs) auto

lemma keys_delete: "fst ` set (AList.delete k xs) = fst ` set xs - {k}"
  by (induction xs) auto

lemma evict_oldest_keys: "fst ` set (c_cache (evict_oldest c)) \<subseteq> fst ` set (c_cache c)"
  unfolding evict_oldest_def
  by (cases "c_cache c") (auto simp: keys_delete split: prod.splits)

lemma evict_oldest_maxSize: "c_maxSize (evict_oldest c) = c_maxSize c"
  unfolding evict_oldest_def by (auto split: list.splits prod.splits)

lemma cache_set_bounded:
  assumes "1 \<le> c_maxSize c" "\<forall>x. H x \<noteq> []" "bounded c"
  shows "bounded (cache_set H c i p m v t) \<and> c_maxSize (cache_set H c i p m v t) = c_maxSize c"
proof -
  define key where "key = generateKey H i p m"
  have key_ne: "key \<noteq> []" using assms(2) by (simp add: key_def generateKey_def Let_def)
  define c1 where "c1 = (if map_of (c_cache c) key \<noteq> None then c\<lparr> c_cache := AList.delete key (c_cache c) \<rparr> else c)"
  define c2 where "c2 = (if int (length (c_cache c1)) \<ge> c_maxSize c1 then evict_oldest c1 else c1)"
  have c1: "[] \<notin> fst ` set (c_cache c1)" "int (length (c_cache c1)) \<le> c_maxSize c" "c_maxSize c1 = c_maxSize c"
    using assms(3) delete_length_le[of key "c_cache c"] by (auto simp: c1_def bounded_def keys_delete)
  have c2m: "c_maxSize c2 = c_maxSize c" using c1 by (simp add: c2_def evict_oldest_maxSize)
  have c2k: "[] \<notin> fst ` set (c_cache c2)" using c1(1) evict_oldest_keys[of c1] by (auto simp: c2_def)
  have c2l: "int (length (c_cache c2)) < c_maxSize c"
  proof (cases "int (length (c_cache c1)) \<ge> c_maxSize c1")
    case True
    then have "c_cache c1 \<noteq> []" using assms(1) c1(3) by auto
    then have "length (c_cache (evict_oldest c1)) < length (c_cache c1)" using c1(1) by (rule evict_oldest_length)
    then show ?thesis using True c1 by (simp add: c2_def)
  next
    case False
    then show ?thesis using c1 by (simp add: c2_def)
  qed
  have eq: "cache_set H c i p m v t = (let c3 = c2\<lparr> c_cache := AList.update key \<lparr> e_key = key, e_value = v, e_timestamp = t \<rparr> (c_cache c2) \<rparr>
      in c3\<lparr> c_stats := (c_stats c3)\<lparr> st_size := int (length (c_cache c3)) \<rparr> \<rparr>)"
    by (simp add: cache_set_def Let_def key_def c1_def c2_def)
  have c3l: "int (length (AList.update key e (c_cache c2))) \<le> c_maxSize c" for e
    using c2l update_length_le[of key e "c_cache c2"] by linarith
  show ?thesis using c2m c2k c3l key_ne
    by (auto simp: eq Let_def bounded_def keys_update)
qed

lemma cache_get_bounded:
  assumes "bounded c"
  shows "bounded (snd (cache_get H c i p m)) \<and> c_maxSize (snd (cache_get H c i p m)) = c_maxSize c"
proof (cases "map_of (c_cache c) (generateKey H i p m)")
  case None
  then show ?thesis using assms by (simp add: cache_get_def Let_def bounded_def)
next
  case (Some entry)
  define key where "key = generateKey H i p m"
  have mem: "(key, entry) \<in> set (c_cache c)" using Some by (simp add: key_def map_of_SomeD)
  then have kin: "key \<in> fst ` set (c_cache c)" by force
  have "length (AList.delete key (c_cache c)) < length (c_cache c)"
    using mem by (auto simp: AList.delete_eq intro!: length_filter_less)
  then have "length (AList.update key entry (AList.delete key (c_cache c))) \<le> length (c_cache c)"
    using update_length_le[of key entry "AList.delete key (c_cache c)"] by linarith
  then have len: "int (length (AList.update key entry (AList.delete key (c_cache c)))) \<le> c_maxSize c"
    using assms by (simp add: bounded_def)
  have knz: "key \<noteq> []" using kin assms unfolding bounded_def by metis
  have res: "snd (cache_get H c i p m) =
      c\<lparr> c_cache := AList.update key entry (AList.delete key (c_cache c)),
         c_stats := (c_stats c)\<lparr> st_hits := st_hits (c_stats c) + 1 \<rparr> \<rparr>"
    using Some by (simp add: cache_get_def Let_def key_def)
  show ?thesis using len knz assms
    by (auto simp: res bounded_def keys_update keys_delete)
qed

lemma apply_op_bounded:
  assumes "1 \<le> c_maxSize c" "\<forall>x. H x \<noteq> []" "bounded c"
  shows "bounded (apply_op H c op) \<and> c_maxSize (apply_op H c op) = c_maxSize c"
proof (cases op)
  case (Get i p m)
  then show ?thesis using cache_get_bounded[OF assms(3)] by simp
next
  case (Set i p m v t)
  then show ?thesis using cache_set_bounded[OF assms] by simp
next
  case Clear
  then show ?thesis using assms(1) by (simp add: cache_clear_def bounded_def)
qed

lemma run_ops_bounded:
  assumes "1 \<le> c_maxSize c" "\<forall>x. H x \<noteq> []" "bounded c"
  shows "bounded (run_ops H ops c) \<and> c_maxSize (run_ops H ops c) = c_maxSize c"
  using assms
proof (induction ops arbitrary: c)
  case Nil
  then show ?case by (simp add: run_ops_def)
next
  case (Cons op ops)
  have step: "bounded (apply_op H c op) \<and> c_maxSize (apply_op H c op) = c_maxSize c"
    using apply_op_bounded[OF Cons.prems] .
  then have "bounded (run_ops H ops (apply_op H c op)) \<and> c_maxSize (run_ops H ops (apply_op H c op)) = c_maxSize (apply_op H c op)"
    using Cons.IH[of "apply_op H c op"] Cons.prems by simp
  then show ?case using step by (simp add: run_ops_def)
qed

text \<open>
  C8 (amended: the capacity is at least 1).  After any sequence of get, set and clear
  operations on a cache constructed with capacity \<open>maxSize \<ge> 1\<close>, the number of stored
  entries is at most \<open>maxSize\<close>.  The digest is never the empty string.
\<close>

theorem size_never_exceeds_maxSize:
  assumes "1 \<le> maxSize" and "\<forall>x. sha256 x \<noteq> []"
  shows "cache_size (run_ops sha256 ops (new_LRUCache maxSize)) \<le> maxSize"
proof -
  have "bounded (new_LRUCache maxSize :: 'a LRUCache)" using assms(1) by (simp add: bounded_def new_LRUCache_def)
  moreover have "1 \<le> c_maxSize (new_LRUCache maxSize :: 'a LRUCache)" using assms(1) by (simp add: new_LRUCache_def)
  ultimately have "bounded (run_ops sha256 ops (new_LRUCache maxSize :: 'a LRUCache)) \<and>
     c_maxSize (run_ops sha256 ops (new_LRUCache maxSize :: 'a LRUCache)) = c_maxSize (new_LRUCache maxSize :: 'a LRUCache)"
    using run_ops_bounded assms(2) by blast
  then show ?thesis by (simp add: bounded_def cache_size_def new_LRUCache_def)
qed

theorem size_never_exceeds_maxSize_witness:
  "cache_size (run_ops demo_digest
      [Set ''a'' openai ''m'' (1::nat) 0, Get ''a'' openai ''m'', Set ''b'' openai ''m'' 2 1,
       Set ''c'' openai ''m'' 3 2, Clear, Set ''d'' openai ''m'' 4 3]
      (new_LRUCache 2)) \<le> 2"
  using size_never_exceeds_maxSize[of 2 demo_digest] by (simp add: demo_digest_def)

text \<open>
  With capacity 0 the guard on the oldest key finds nothing to evict in the empty map, and the
  entry is stored all the same: one entry in a cache of capacity 0.
\<close>

theorem capacity_zero_counterexample:
  "\<not> cache_size (run_ops demo_digest [Set ''a'' openai ''m'' (1::nat) 0] (new_LRUCache 0)) \<le> 0"
  by (simp add: run_ops_def cache_set_def cache_size_def new_LRUCache_def evict_oldest_def Let_def)

subsection \<open>Eviction removes the least recently accessed entry\<close>

lemma keys_of_delete: "map fst (AList.delete k xs) = removeAll k (map fst xs)"
  by (induction xs) auto

lemma keys_of_update:
  "map fst (AList.update k v xs) = (if k \<in> set (map fst xs) then map fst xs else map fst xs @ [k])"
  by (induction xs) auto

lemma last_access_snoc:
  "last_access H (ops @ [op]) k = (if op_key H op = Some k then Suc (length ops) else last_access H ops k)"
  by (simp add: last_access_def)

lemma last_access_le: "last_access H ops k \<le> length ops"
  unfolding last_access_def using length_dropWhile_le[of _ "rev ops"] by simp

lemma evict_oldest_keys_eq:
  "cache_keys (evict_oldest c) =
     (case cache_keys c of [] \<Rightarrow> [] | k0 # _ \<Rightarrow> if k0 \<noteq> [] then removeAll k0 (cache_keys c) else cache_keys c)"
  unfolding evict_oldest_def cache_keys_def
  by (cases "c_cache c") (auto simp: keys_of_delete split: prod.splits)

lemma evict_oldest_evictions:
  "st_evictions (c_stats (evict_oldest c)) =
     (case cache_keys c of [] \<Rightarrow> st_evictions (c_stats c)
      | k0 # _ \<Rightarrow> if k0 \<noteq> [] then st_evictions (c_stats c) + 1 else st_evictions (c_stats c))"
  unfolding evict_oldest_def cache_keys_def
  by (cases "c_cache c") (auto split: prod.splits)

lemma removeAll_subset: "set (removeAll k xs) \<subseteq> set xs" by auto

lemma cache_set_keys:
  "cache_keys (cache_set H c i p m v t) = set_keys (c_maxSize c) (generateKey H i p m) (cache_keys c)"
proof -
  define key where "key = generateKey H i p m"
  define c1 where "c1 = (if map_of (c_cache c) key \<noteq> None then c\<lparr> c_cache := AList.delete key (c_cache c) \<rparr> else c)"
  define c2 where "c2 = (if int (length (c_cache c1)) \<ge> c_maxSize c1 then evict_oldest c1 else c1)"
  have k1: "cache_keys c1 = removeAll key (cache_keys c)"
  proof (cases "map_of (c_cache c) key")
    case None
    then have "key \<notin> set (map fst (c_cache c))" by (simp add: map_of_eq_None_iff)
    then show ?thesis using None by (simp add: c1_def cache_keys_def)
  next
    case (Some a)
    then show ?thesis by (simp add: c1_def cache_keys_def keys_of_delete)
  qed
  have m1: "c_maxSize c1 = c_maxSize c" by (simp add: c1_def)
  have l1: "length (c_cache c1) = length (cache_keys c1)" by (simp add: cache_keys_def)
  have k2: "cache_keys c2 = (if int (length (cache_keys c1)) \<ge> c_maxSize c
                 then (case cache_keys c1 of [] \<Rightarrow> [] | k0 # _ \<Rightarrow> if k0 \<noteq> [] then removeAll k0 (cache_keys c1) else cache_keys c1)
                 else cache_keys c1)"
    by (simp add: c2_def m1 l1 evict_oldest_keys_eq)
  have sub: "set (cache_keys c2) \<subseteq> set (cache_keys c1)"
    unfolding k2 by (auto split: list.splits if_splits)
  have "key \<notin> set (cache_keys c1)" by (simp add: k1)
  then have "key \<notin> set (cache_keys c2)" using sub by blast
  then have notin: "key \<notin> set (map fst (c_cache c2))" by (simp add: cache_keys_def)
  have eq: "cache_set H c i p m v t = (let c3 = c2\<lparr> c_cache := AList.update key \<lparr> e_key = key, e_value = v, e_timestamp = t \<rparr> (c_cache c2) \<rparr>
      in c3\<lparr> c_stats := (c_stats c3)\<lparr> st_size := int (length (c_cache c3)) \<rparr> \<rparr>)"
    by (simp add: cache_set_def Let_def key_def c1_def c2_def)
  have "cache_keys (cache_set H c i p m v t) = cache_keys c2 @ [key]"
    using notin by (simp add: eq Let_def cache_keys_def keys_of_update)
  then show ?thesis unfolding k2 k1 set_keys_def Let_def key_def by simp
qed

lemma cache_set_evictions:
  "st_evictions (c_stats (cache_set H c i p m v t)) =
     (let ks1 = removeAll (generateKey H i p m) (cache_keys c) in
      if int (length ks1) \<ge> c_maxSize c \<and> ks1 \<noteq> [] \<and> hd ks1 \<noteq> []
      then st_evictions (c_stats c) + 1 else st_evictions (c_stats c))"
proof -
  define key where "key = generateKey H i p m"
  define c1 where "c1 = (if map_of (c_cache c) key \<noteq> None then c\<lparr> c_cache := AList.delete key (c_cache c) \<rparr> else c)"
  define c2 where "c2 = (if int (length (c_cache c1)) \<ge> c_maxSize c1 then evict_oldest c1 else c1)"
  have k1: "cache_keys c1 = removeAll key (cache_keys c)"
  proof (cases "map_of (c_cache c) key")
    case None
    then have "key \<notin> set (map fst (c_cache c))" by (simp add: map_of_eq_None_iff)
    then show ?thesis using None by (simp add: c1_def cache_keys_def)
  next
    case (Some a)
    then show ?thesis by (simp add: c1_def cache_keys_def keys_of_delete)
  qed
  have m1: "c_maxSize c1 = c_maxSize c" "c_stats c1 = c_stats c" by (simp_all add: c1_def)
  have l1: "length (c_cache c1) = length (cache_keys c1)" by (simp add: cache_keys_def)
  have "st_evictions (c_stats (cache_set H c i p m v t)) = st_evictions (c_stats c2)"
    by (simp add: cache_set_def Let_def key_def c1_def c2_def)
  also have "\<dots> = (if int (length (cache_keys c1)) \<ge> c_maxSize c \<and> cache_keys c1 \<noteq> [] \<and> hd (cache_keys c1) \<noteq> []
      then st_evictions (c_stats c) + 1 else st_evictions (c_stats c))"
    by (cases "cache_keys c1") (simp_all add: c2_def m1 l1 evict_oldest_evictions)
  finally show ?thesis by (simp add: k1 Let_def key_def)
qed

lemma cache_get_keys:
  "cache_keys (snd (cache_get H c i p m)) =
     (if generateKey H i p m \<in> set (cache_keys c)
      then removeAll (generateKey H i p m) (cache_keys c) @ [generateKey H i p m]
      else cache_keys c)"
proof (cases "map_of (c_cache c) (generateKey H i p m)")
  case None
  then have "generateKey H i p m \<notin> set (map fst (c_cache c))" by (simp add: map_of_eq_None_iff)
  then show ?thesis using None by (simp add: cache_get_def Let_def cache_keys_def)
next
  case (Some entry)
  then have "(generateKey H i p m, entry) \<in> set (c_cache c)" by (simp add: map_of_SomeD)
  then have "generateKey H i p m \<in> set (map fst (c_cache c))" by force
  then show ?thesis using Some
    by (simp add: cache_get_def Let_def cache_keys_def keys_of_update keys_of_delete)
qed

lemma sorted_wrt_touch:
  assumes "sorted_wrt (\<lambda>a b. last_access H ops a < last_access H ops b) ks"
    and "op_key H op = Some key" and "set ks' \<subseteq> set ks - {key}"
    and "sorted_wrt (\<lambda>a b. last_access H ops a < last_access H ops b) ks'"
  shows "sorted_wrt (\<lambda>a b. last_access H (ops @ [op]) a < last_access H (ops @ [op]) b) (ks' @ [key])"
proof -
  have same: "last_access H (ops @ [op]) a = last_access H ops a" if "a \<in> set ks'" for a
    using that assms(2,3) by (auto simp: last_access_snoc)
  have top: "last_access H (ops @ [op]) key = Suc (length ops)"
    using assms(2) by (simp add: last_access_snoc)
  have "sorted_wrt (\<lambda>a b. last_access H (ops @ [op]) a < last_access H (ops @ [op]) b) ks'"
    using assms(4) same by (auto simp: sorted_wrt_iff_nth_less)
  moreover have "\<forall>a \<in> set ks'. last_access H (ops @ [op]) a < last_access H (ops @ [op]) key"
    using same top last_access_le[of H ops] by (simp add: le_imp_less_Suc)
  ultimately show ?thesis by (simp add: sorted_wrt_append)
qed

lemma sorted_wrt_removeAll: "sorted_wrt P xs \<Longrightarrow> sorted_wrt P (removeAll k xs)"
  by (induction xs) auto

lemma sorted_wrt_untouched:
  assumes "sorted_wrt (\<lambda>a b. last_access H ops a < last_access H ops b) ks"
    and "\<forall>k \<in> set ks. op_key H op \<noteq> Some k"
  shows "sorted_wrt (\<lambda>a b. last_access H (ops @ [op]) a < last_access H (ops @ [op]) b) ks"
proof -
  have same: "last_access H (ops @ [op]) a = last_access H ops a" if "a \<in> set ks" for a
    using that assms(2) by (auto simp: last_access_snoc)
  show ?thesis using assms(1) same by (auto simp: sorted_wrt_iff_nth_less)
qed

lemma recency_inv_step:
  assumes "recency_inv H ops c" and "\<forall>x. H x \<noteq> []"
  shows "recency_inv H (ops @ [op]) (apply_op H c op)"
proof (cases op)
  case (Get i p m)
  define key where "key = generateKey H i p m"
  have kne: "key \<noteq> []" using assms(2) by (simp add: key_def generateKey_def Let_def)
  have ok: "op_key H op = Some key" by (simp add: Get key_def)
  show ?thesis
  proof (cases "key \<in> set (cache_keys c)")
    case True
    have ks: "cache_keys (apply_op H c op) = removeAll key (cache_keys c) @ [key]"
      using True by (simp add: Get cache_get_keys key_def)
    have "sorted_wrt (\<lambda>a b. last_access H (ops @ [op]) a < last_access H (ops @ [op]) b) (removeAll key (cache_keys c) @ [key])"
      using assms(1) ok by (intro sorted_wrt_touch[where ks="cache_keys c"]) (auto simp: recency_inv_def sorted_wrt_removeAll)
    then show ?thesis using assms(1) kne by (auto simp: recency_inv_def ks distinct_removeAll)
  next
    case False
    have ks: "cache_keys (apply_op H c op) = cache_keys c"
      using False by (simp add: Get cache_get_keys key_def)
    have "sorted_wrt (\<lambda>a b. last_access H (ops @ [op]) a < last_access H (ops @ [op]) b) (cache_keys c)"
      using assms(1) ok False by (intro sorted_wrt_untouched) (auto simp: recency_inv_def)
    then show ?thesis using assms(1) by (auto simp: recency_inv_def ks)
  qed
next
  case (Set i p m v t)
  define key where "key = generateKey H i p m"
  have kne: "key \<noteq> []" using assms(2) by (simp add: key_def generateKey_def Let_def)
  have ok: "op_key H op = Some key" by (simp add: Set key_def)
  define ks1 where "ks1 = removeAll key (cache_keys c)"
  define ks2 where "ks2 = (if int (length ks1) \<ge> c_maxSize c
                 then (case ks1 of [] \<Rightarrow> [] | k0 # _ \<Rightarrow> if k0 \<noteq> [] then removeAll k0 ks1 else ks1)
                 else ks1)"
  have ks: "cache_keys (apply_op H c op) = ks2 @ [key]"
    unfolding ks2_def ks1_def key_def by (simp add: Set cache_set_keys set_keys_def Let_def)
  have s1: "sorted_wrt (\<lambda>a b. last_access H ops a < last_access H ops b) ks1" "distinct ks1" "set ks1 \<subseteq> set (cache_keys c) - {key}"
    using assms(1) by (auto simp: ks1_def recency_inv_def sorted_wrt_removeAll distinct_removeAll)
  have s2: "sorted_wrt (\<lambda>a b. last_access H ops a < last_access H ops b) ks2" "distinct ks2" "set ks2 \<subseteq> set ks1"
    using s1(1,2) by (auto simp: ks2_def sorted_wrt_removeAll distinct_removeAll split: list.splits)
  have "sorted_wrt (\<lambda>a b. last_access H (ops @ [op]) a < last_access H (ops @ [op]) b) (ks2 @ [key])"
    using assms(1) ok s1(3) s2(1,3) by (intro sorted_wrt_touch[where ks="cache_keys c"]) (auto simp: recency_inv_def)
  moreover have "key \<notin> set ks2" using s1(3) s2(3) by auto
  moreover have "[] \<notin> set ks2" using s1(3) s2(3) assms(1) by (auto simp: recency_inv_def)
  ultimately show ?thesis using s2(2) kne by (auto simp: recency_inv_def ks)
next
  case Clear
  then show ?thesis by (simp add: recency_inv_def cache_clear_def cache_keys_def)
qed

lemma recency_inv_run:
  assumes "\<forall>x. H x \<noteq> []"
  shows "recency_inv H ops (run_ops H ops (new_LRUCache N))"
proof (induction ops rule: rev_induct)
  case Nil
  then show ?case by (simp add: recency_inv_def run_ops_def new_LRUCache_def cache_keys_def)
next
  case (snoc op ops)
  have "run_ops H (ops @ [op]) (new_LRUCache N) = apply_op H (run_ops H ops (new_LRUCache N)) op"
    by (simp add: run_ops_def)
  then show ?case using recency_inv_step[OF snoc.IH assms] by simp
qed

text \<open>
  C6 (amended: the capacity is at least 1).  Take any sequence of operations on a fresh cache
  of capacity \<open>N \<ge> 1\<close> and then set a key that is not stored.  While fewer than \<open>N\<close>
  entries are stored nothing is evicted.  When \<open>N\<close> entries are stored, exactly one of them
  is evicted: the one whose last access, by get or by set, is the earliest in the trace; the
  others keep their order, the new key becomes the most recent, the evictions counter grows
  by exactly one and the size stays \<open>N\<close>.  So the \<open>N+1\<close>-th distinct key evicts exactly one.
  Here \<open>H\<close> is the digest, which never returns the empty string, and \<open>i\<close>, \<open>p\<close>, \<open>m\<close>,
  \<open>v\<close>, \<open>t\<close> are the input, the provider, the model, the value and the time of the call.
\<close>

theorem lru_evicts_least_recently_accessed:
  assumes "1 \<le> N" and "\<forall>x. H x \<noteq> []"
    and "\<not> cache_has H (run_ops H ops (new_LRUCache N)) i p m"
  shows "(cache_size (run_ops H ops (new_LRUCache N)) < N \<longrightarrow>
            cache_keys (cache_set H (run_ops H ops (new_LRUCache N)) i p m v t)
              = cache_keys (run_ops H ops (new_LRUCache N)) @ [generateKey H i p m]
          \<and> st_evictions (getStats (cache_set H (run_ops H ops (new_LRUCache N)) i p m v t))
              = st_evictions (getStats (run_ops H ops (new_LRUCache N))))
       \<and> (cache_size (run_ops H ops (new_LRUCache N)) = N \<longrightarrow>
            (\<exists>old rest. cache_keys (run_ops H ops (new_LRUCache N)) = old # rest \<and> old \<notin> set rest
               \<and> (\<forall>k \<in> set rest. last_access H ops old < last_access H ops k)
               \<and> cache_keys (cache_set H (run_ops H ops (new_LRUCache N)) i p m v t)
                    = rest @ [generateKey H i p m])
          \<and> st_evictions (getStats (cache_set H (run_ops H ops (new_LRUCache N)) i p m v t))
              = st_evictions (getStats (run_ops H ops (new_LRUCache N))) + 1
          \<and> cache_size (cache_set H (run_ops H ops (new_LRUCache N)) i p m v t) = N)"
proof -
  define c where "c = run_ops H ops (new_LRUCache N :: 'a LRUCache)"
  define key where "key = generateKey H i p m"
  define ks where "ks = cache_keys c"
  have inv: "recency_inv H ops c" unfolding c_def using recency_inv_run[OF assms(2)] .
  have "bounded (new_LRUCache N :: 'a LRUCache)" "1 \<le> c_maxSize (new_LRUCache N :: 'a LRUCache)"
    using assms(1) by (simp_all add: bounded_def new_LRUCache_def)
  then have "c_maxSize c = c_maxSize (new_LRUCache N :: 'a LRUCache)"
    unfolding c_def using run_ops_bounded assms(2) by blast
  then have mx: "c_maxSize c = N" by (simp add: new_LRUCache_def)
  have "map_of (c_cache c) key = None" using assms(3) by (simp add: cache_has_def c_def key_def)
  then have new: "key \<notin> set ks" by (simp add: ks_def cache_keys_def map_of_eq_None_iff)
  then have rm: "removeAll key ks = ks" by simp
  have sz: "cache_size c = int (length ks)" by (simp add: cache_size_def ks_def cache_keys_def)
  have keys': "cache_keys (cache_set H c i p m v t) =
      (if int (length ks) \<ge> N
       then (case ks of [] \<Rightarrow> [] | k0 # _ \<Rightarrow> if k0 \<noteq> [] then removeAll k0 ks else ks)
       else ks) @ [key]"
    using rm by (simp add: cache_set_keys set_keys_def Let_def mx key_def[symmetric] ks_def[symmetric])
  have ev': "st_evictions (getStats (cache_set H c i p m v t)) =
      (if int (length ks) \<ge> N \<and> ks \<noteq> [] \<and> hd ks \<noteq> []
       then st_evictions (getStats c) + 1 else st_evictions (getStats c))"
    using rm by (simp add: getStats_def cache_set_evictions Let_def mx key_def[symmetric] ks_def[symmetric])
  have sz': "cache_size (cache_set H c i p m v t) = int (length (cache_keys (cache_set H c i p m v t)))"
    by (simp add: cache_size_def cache_keys_def)
  have part1: "cache_size c < N \<longrightarrow>
      cache_keys (cache_set H c i p m v t) = ks @ [key]
      \<and> st_evictions (getStats (cache_set H c i p m v t)) = st_evictions (getStats c)"
    by (simp add: keys' ev' sz)
  have part2: "cache_size c = N \<longrightarrow>
      (\<exists>old rest. ks = old # rest \<and> old \<notin> set rest
         \<and> (\<forall>k \<in> set rest. last_access H ops old < last_access H ops k)
         \<and> cache_keys (cache_set H c i p m v t) = rest @ [key])
      \<and> st_evictions (getStats (cache_set H c i p m v t)) = st_evictions (getStats c) + 1
      \<and> cache_size (cache_set H c i p m v t) = N"
  proof
    assume full: "cache_size c = N"
    then have "ks \<noteq> []" using assms(1) sz by auto
    then obtain old rest where ks_eq: "ks = old # rest" by (cases ks) auto
    have d: "old \<notin> set rest" "old \<noteq> []"
      and s: "\<forall>k \<in> set rest. last_access H ops old < last_access H ops k"
      using inv by (auto simp: recency_inv_def ks_def[symmetric] ks_eq)
    have rm_old: "removeAll old ks = rest" using d(1) by (simp add: ks_eq)
    have k': "cache_keys (cache_set H c i p m v t) = rest @ [key]"
      using full sz d(2) rm_old by (simp add: keys' ks_eq)
    have e': "st_evictions (getStats (cache_set H c i p m v t)) = st_evictions (getStats c) + 1"
      using full sz d(2) by (simp add: ev' ks_eq)
    have "cache_size (cache_set H c i p m v t) = N"
      using full sz by (simp add: sz' k' ks_eq)
    then show "(\<exists>old rest. ks = old # rest \<and> old \<notin> set rest
         \<and> (\<forall>k \<in> set rest. last_access H ops old < last_access H ops k)
         \<and> cache_keys (cache_set H c i p m v t) = rest @ [key])
      \<and> st_evictions (getStats (cache_set H c i p m v t)) = st_evictions (getStats c) + 1
      \<and> cache_size (cache_set H c i p m v t) = N"
      using ks_eq d(1) s k' e' by blast
  qed
  show ?thesis using part1 part2 unfolding c_def key_def ks_def by blast
qed

theorem lru_evicts_least_recently_accessed_witness:
  "cache_size (run_ops demo_digest
       [Set ''a'' openai ''m'' (1::nat) 0, Set ''b'' openai ''m'' 2 1, Get ''a'' openai ''m'']
       (new_LRUCache 2)) = 2
   \<and> cache_keys (cache_set demo_digest (run_ops demo_digest
       [Set ''a'' openai ''m'' (1::nat) 0, Set ''b'' openai ''m'' 2 1, Get ''a'' openai ''m'']
       (new_LRUCache 2)) ''c'' openai ''m'' 3 2) = [''#a::openai::m'', ''#c::openai::m'']
   \<and> st_evictions (getStats (cache_set demo_digest (run_ops demo_digest
       [Set ''a'' openai ''m'' (1::nat) 0, Set ''b'' openai ''m'' 2 1, Get ''a'' openai ''m'']
       (new_LRUCache 2)) ''c'' openai ''m'' 3 2)) = 1"
proof -
  let ?ops = "[Set ''a'' openai ''m'' (1::nat) 0, Set ''b'' openai ''m'' 2 1, Get ''a'' openai ''m'']"
  let ?c = "run_ops demo_digest ?ops (new_LRUCache 2)"
  let ?c' = "cache_set demo_digest ?c ''c'' openai ''m'' 3 2"
  have h1: "(1::int) \<le> 2" by simp
  have h2: "\<forall>x. demo_digest x \<noteq> []" by (simp add: demo_digest_def)
  have h3: "\<not> cache_has demo_digest ?c ''c'' openai ''m''" by code_simp
  have sz: "cache_size ?c = 2" by code_simp
  have ks: "cache_keys ?c = [''#b::openai::m'', ''#a::openai::m'']" by code_simp
  have ev: "st_evictions (getStats ?c) = 0" by code_simp
  have gk: "generateKey demo_digest ''c'' openai ''m'' = ''#c::openai::m''" by code_simp
  from lru_evicts_least_recently_accessed[OF h1 h2 h3, of 3 2] sz
  obtain old rest where r: "cache_keys ?c = old # rest"
      "cache_keys ?c' = rest @ [generateKey demo_digest ''c'' openai ''m'']"
      "st_evictions (getStats ?c') = st_evictions (getStats ?c) + 1"
    by blast
  from r(1) ks have "rest = [''#a::openai::m'']" by simp
  with r(2,3) sz ev gk show ?thesis by simp
qed

text \<open>
  With capacity 0 the first key set finds an empty map: nothing is evicted and the evictions
  counter does not move.
\<close>

theorem no_eviction_at_capacity_zero_counterexample:
  "st_evictions (getStats (cache_set demo_digest (new_LRUCache 0) ''a'' openai ''m'' (1::nat) 0))
     \<noteq> st_evictions (getStats (new_LRUCache 0 :: nat LRUCache)) + 1"
  by (simp add: cache_set_def getStats_def new_LRUCache_def evict_oldest_def Let_def)

text \<open>
  The scenario itself, from the same lemmas: setting \<open>N + 1\<close> requests with distinct keys on
  a fresh cache of capacity \<open>N \<ge> 1\<close> leaves the keys of the last \<open>N\<close> requests, in order, and
  exactly one eviction, that of the key inserted first.
\<close>

lemma cache_set_new_below:
  assumes "generateKey H i p m \<notin> set (cache_keys c)" "int (length (cache_keys c)) < c_maxSize c"
  shows "cache_keys (cache_set H c i p m v t) = cache_keys c @ [generateKey H i p m]"
    and "st_evictions (c_stats (cache_set H c i p m v t)) = st_evictions (c_stats c)"
    and "c_maxSize (cache_set H c i p m v t) = c_maxSize c"
proof -
  have rm: "removeAll (generateKey H i p m) (cache_keys c) = cache_keys c" using assms(1) by simp
  show "cache_keys (cache_set H c i p m v t) = cache_keys c @ [generateKey H i p m]"
    using assms(2) by (simp add: cache_set_keys set_keys_def Let_def rm)
  show "st_evictions (c_stats (cache_set H c i p m v t)) = st_evictions (c_stats c)"
    using assms(2) by (simp add: cache_set_evictions Let_def rm)
  show "c_maxSize (cache_set H c i p m v t) = c_maxSize c"
    by (simp add: cache_set_def Let_def evict_oldest_maxSize)
qed

lemma cache_set_new_full:
  assumes "generateKey H i p m \<notin> set (cache_keys c)" "int (length (cache_keys c)) = c_maxSize c"
    and "cache_keys c = old # rest" "old \<noteq> []" "old \<notin> set rest"
  shows "cache_keys (cache_set H c i p m v t) = rest @ [generateKey H i p m]"
    and "st_evictions (c_stats (cache_set H c i p m v t)) = st_evictions (c_stats c) + 1"
proof -
  have rm: "removeAll (generateKey H i p m) (cache_keys c) = cache_keys c" using assms(1) by simp
  have ro: "removeAll old (old # rest) = rest" using assms(5) by simp
  have ge: "c_maxSize c \<le> int (length (old # rest))" using assms(2) by (simp add: assms(3))
  have "cache_keys (cache_set H c i p m v t) = set_keys (c_maxSize c) (generateKey H i p m) (old # rest)"
    by (simp only: cache_set_keys assms(3))
  also have "\<dots> = rest @ [generateKey H i p m]"
    using rm ge assms(4) ro unfolding set_keys_def Let_def assms(3) by simp
  finally show "cache_keys (cache_set H c i p m v t) = rest @ [generateKey H i p m]" .
  show "st_evictions (c_stats (cache_set H c i p m v t)) = st_evictions (c_stats c) + 1"
    using rm ge assms(4) unfolding cache_set_evictions Let_def assms(3) by simp
qed

lemma fill_fresh_cache:
  assumes "distinct (map (request_key H) reqs)" "int (length reqs) \<le> N"
  shows "cache_keys (run_ops H (map set_op reqs) (new_LRUCache N)) = map (request_key H) reqs
       \<and> st_evictions (c_stats (run_ops H (map set_op reqs) (new_LRUCache N))) = 0
       \<and> c_maxSize (run_ops H (map set_op reqs) (new_LRUCache N)) = N"
  using assms
proof (induction reqs rule: rev_induct)
  case Nil
  then show ?case by (simp add: run_ops_def new_LRUCache_def cache_keys_def)
next
  case (snoc r reqs)
  obtain i p m v t where r: "r = (i, p, m, v, t)" by (metis prod_cases5)
  let ?c = "run_ops H (map set_op reqs) (new_LRUCache N)"
  have ih: "cache_keys ?c = map (request_key H) reqs" "st_evictions (c_stats ?c) = 0" "c_maxSize ?c = N"
    using snoc by simp_all
  have new: "generateKey H i p m \<notin> set (cache_keys ?c)" using snoc.prems(1) by (simp add: ih r)
  have below: "int (length (cache_keys ?c)) < c_maxSize ?c" using snoc.prems(2) by (simp add: ih)
  have step: "run_ops H (map set_op (reqs @ [r])) (new_LRUCache N) = cache_set H ?c i p m v t"
    by (simp add: run_ops_def r)
  show ?case unfolding step using cache_set_new_below[OF new below, of v t] by (simp add: ih r)
qed

lemma overflow_evicts_first_inserted:
  assumes "1 \<le> N" "\<forall>x. H x \<noteq> []"
    and "distinct (map (request_key H) (reqs @ [r]))" "int (length reqs) = N"
  shows "cache_keys (run_ops H (map set_op (reqs @ [r])) (new_LRUCache N))
           = tl (map (request_key H) reqs) @ [request_key H r]
       \<and> st_evictions (getStats (run_ops H (map set_op (reqs @ [r])) (new_LRUCache N))) = 1"
proof -
  obtain i p m v t where r: "r = (i, p, m, v, t)" by (metis prod_cases5)
  let ?c = "run_ops H (map set_op reqs) (new_LRUCache N)"
  have d: "distinct (map (request_key H) reqs)" using assms(3) by simp
  from fill_fresh_cache[OF d, of N] assms(4)
  have ih: "cache_keys ?c = map (request_key H) reqs" "st_evictions (c_stats ?c) = 0" "c_maxSize ?c = N"
    by simp_all
  have "reqs \<noteq> []" using assms(1,4) by auto
  then obtain r0 rs where reqs: "reqs = r0 # rs" by (cases reqs) auto
  obtain i0 p0 m0 v0 t0 where r0: "r0 = (i0, p0, m0, v0, t0)" by (metis prod_cases5)
  have new: "generateKey H i p m \<notin> set (cache_keys ?c)" using assms(3) by (simp add: ih r)
  have full: "int (length (cache_keys ?c)) = c_maxSize ?c" using assms(4) by (simp add: ih)
  have ks: "cache_keys ?c = request_key H r0 # map (request_key H) rs" using ih(1) by (simp add: reqs)
  have ne: "request_key H r0 \<noteq> []" using assms(2) by (simp add: r0 generateKey_def Let_def)
  have ni: "request_key H r0 \<notin> set (map (request_key H) rs)" using d by (simp add: reqs)
  have step: "run_ops H (map set_op (reqs @ [r])) (new_LRUCache N) = cache_set H ?c i p m v t"
    by (simp add: run_ops_def r)
  have k': "cache_keys (cache_set H ?c i p m v t) = map (request_key H) rs @ [generateKey H i p m]"
    and e': "st_evictions (c_stats (cache_set H ?c i p m v t)) = st_evictions (c_stats ?c) + 1"
    using cache_set_new_full[OF new full ks ne ni, of v t] by simp_all
  have "tl (map (request_key H) reqs) = map (request_key H) rs" by (simp add: reqs)
  then show ?thesis unfolding step getStats_def k' e' ih(2) by (simp add: r)
qed

section \<open>Properties of the repair strategies\<close>

subsection \<open>Closure repair\<close>

lemma append_times_replicate: "append_times n c s = s @ replicate n c"
  by (induction n arbitrary: s) (auto simp: replicate_app_Cons_same)

lemma count_char_append: "count_char c (xs @ ys) = count_char c xs + count_char c ys"
  by (simp add: count_char_def)

lemma count_char_replicate: "count_char c (replicate n d) = (if c = d then n else 0)"
  by (induction n) (auto simp: count_char_def)

lemma repair_closed_form:
  "repairIncompleteJson s =
     trim s @ (if odd (count_char dquote (trim s)) then [dquote] else [])
       @ replicate (count_char CHR ''['' (trim s) - count_char CHR '']'' (trim s)) CHR '']''
       @ replicate (count_char CHR ''{'' (trim s) - count_char CHR ''}'' (trim s)) CHR ''}''"
proof -
  have n: "nat (int a - int b) = a - b" for a b :: nat by simp
  show ?thesis
    by (simp add: repairIncompleteJson_def Let_def append_times_replicate n odd_iff_mod_2_eq_one)
qed


lemma count_char_single: "count_char c [d] = (if d = c then 1 else 0)"
  by (simp add: count_char_def)

lemma count_char_Nil: "count_char c [] = 0"
  by (simp add: count_char_def)

text \<open>
  C4 (amended: the text is trimmed first).  Closure repair returns the trimmed text followed
  by appended characters only: one closing quote when the trimmed text holds an odd number
  of quotes, then one closing bracket for each opening bracket that has none, then one
  closing brace for each opening brace that has none.  Hence, on a text without white space
  at either end, the result extends the text: its length does not decrease and no character
  before the original end changes.  The quotes of the result are even in number, and the
  brackets and the braces are balanced in number unless the closing ones already outnumbered
  the opening ones.
\<close>

theorem closure_repair_only_appends:
  "repairIncompleteJson s =
     trim s @ (if odd (count_char dquote (trim s)) then [dquote] else [])
       @ replicate (count_char CHR ''['' (trim s) - count_char CHR '']'' (trim s)) CHR '']''
       @ replicate (count_char CHR ''{'' (trim s) - count_char CHR ''}'' (trim s)) CHR ''}''
   \<and> (trim s = s \<longrightarrow>
        prefix s (repairIncompleteJson s) \<and> length s \<le> length (repairIncompleteJson s)
        \<and> take (length s) (repairIncompleteJson s) = s)
   \<and> even (count_char dquote (repairIncompleteJson s))
   \<and> (count_char CHR '']'' (trim s) \<le> count_char CHR ''['' (trim s) \<longrightarrow>
        count_char CHR '']'' (repairIncompleteJson s) = count_char CHR ''['' (repairIncompleteJson s))
   \<and> (count_char CHR ''}'' (trim s) \<le> count_char CHR ''{'' (trim s) \<longrightarrow>
        count_char CHR ''}'' (repairIncompleteJson s) = count_char CHR ''{'' (repairIncompleteJson s))"
proof -
  let ?t = "trim s"
  let ?r = "repairIncompleteJson s"
  have cf: "?r = ?t @ (if odd (count_char dquote ?t) then [dquote] else [])
       @ replicate (count_char CHR ''['' ?t - count_char CHR '']'' ?t) CHR '']''
       @ replicate (count_char CHR ''{'' ?t - count_char CHR ''}'' ?t) CHR ''}''"
    by (rule repair_closed_form)
  have pre: "prefix ?t ?r" by (subst cf) simp
  have p2: "trim s = s \<longrightarrow> prefix s ?r \<and> length s \<le> length ?r \<and> take (length s) ?r = s"
  proof
    assume ts: "trim s = s"
    then have ps: "prefix s ?r" using pre by simp
    then obtain zs where "?r = s @ zs" by (auto simp: prefix_def)
    then show "prefix s ?r \<and> length s \<le> length ?r \<and> take (length s) ?r = s"
      using ps by simp
  qed
  have q: "even (count_char dquote ?r)"
    by (subst cf) (simp add: count_char_append count_char_replicate count_char_single count_char_Nil dquote_def)
  have b: "count_char CHR '']'' ?t \<le> count_char CHR ''['' ?t \<longrightarrow>
        count_char CHR '']'' ?r = count_char CHR ''['' ?r"
    by (subst (1 2) cf) (simp add: count_char_append count_char_replicate count_char_single count_char_Nil dquote_def)
  have c: "count_char CHR ''}'' ?t \<le> count_char CHR ''{'' ?t \<longrightarrow>
        count_char CHR ''}'' ?r = count_char CHR ''{'' ?r"
    by (subst (1 2) cf) (simp add: count_char_append count_char_replicate count_char_single count_char_Nil dquote_def)
  show ?thesis using cf p2 q b c by blast
qed

theorem closure_repair_only_appends_witness:
  \<open>trim ''{"a": ["b'' = ''{"a": ["b''
   \<and> repairIncompleteJson ''{"a": ["b'' = ''{"a": ["b"]}''
   \<and> prefix ''{"a": ["b'' (repairIncompleteJson ''{"a": ["b'')
   \<and> length ''{"a": ["b'' \<le> length (repairIncompleteJson ''{"a": ["b'')\<close>
proof -
  have t: \<open>trim ''{"a": ["b'' = ''{"a": ["b''\<close> by code_simp
  have r: \<open>repairIncompleteJson ''{"a": ["b'' = ''{"a": ["b"]}''\<close> by code_simp
  show ?thesis
    using closure_repair_only_appends[of \<open>''{"a": ["b''\<close>] t r by blast
qed

text \<open>
  A response cut off after trailing white space: the repaired text is shorter than the text
  it was given, since the white space is trimmed away before the brace is appended.
\<close>

theorem closure_repair_shortens_counterexample:
  \<open>repairIncompleteJson ''{"a": 1  '' = ''{"a": 1}''
   \<and> length (repairIncompleteJson ''{"a": 1  '') < length ''{"a": 1  ''\<close>
  by code_simp

subsection \<open>Quote-escaping repair\<close>

lemma str_includes_single: "str_includes s [q] \<longleftrightarrow> q \<in> set s"
  by (induction s) auto

lemma match_key_value_SomeD:
  assumes "match_key_value s = Some (matched, key, val, rest)"
  shows "s = matched @ rest \<and> dquote \<notin> set val"
proof -
  from assms obtain c r1 where s: "s = c # r1" "c = dquote"
    unfolding match_key_value_def by (auto split: list.splits if_splits)
  define r2 where "r2 = dropWhile (\<lambda>x. x \<noteq> dquote) r1"
  from assms s obtain q col r3 where r3: "r2 = q # col # r3" "col = CHR '':''"
    unfolding match_key_value_def r2_def Let_def
    by (auto split: if_splits list.splits)
  have q: "q = dquote" using r3(1) hd_dropWhile[of "\<lambda>x. x \<noteq> dquote" r1] unfolding r2_def by force
  from assms s r3 obtain q2 r5 where r5: "dropWhile isSpace r3 = q2 # r5" "q2 = dquote"
    unfolding match_key_value_def r2_def Let_def
    by (auto split: if_splits list.splits)
  from assms s r3 r5 obtain q3 where r6: "dropWhile (\<lambda>x. x \<noteq> dquote) r5 = q3 # rest"
    unfolding match_key_value_def r2_def Let_def
    by (auto split: if_splits list.splits)
  have q3: "q3 = dquote" using r6 hd_dropWhile[of "\<lambda>x. x \<noteq> dquote" r5] by force
  have kv: "key = takeWhile (\<lambda>x. x \<noteq> dquote) r1" "val = takeWhile (\<lambda>x. x \<noteq> dquote) r5"
    and mt: "matched = [dquote] @ key @ [dquote] @ '':'' @ takeWhile isSpace r3 @ [dquote] @ val @ [dquote]"
    using assms s r3 r5 r6
    unfolding match_key_value_def r2_def Let_def
    by (auto split: if_splits list.splits)
  have "r1 = key @ r2" by (simp add: kv r2_def)
  moreover have "r3 = takeWhile isSpace r3 @ q2 # r5" using r5(1) takeWhile_dropWhile_id[of isSpace r3] by simp
  moreover have "r5 = val @ q3 # rest" using r6 takeWhile_dropWhile_id[of "\<lambda>x. x \<noteq> dquote" r5] by (simp add: kv)
  ultimately have "s = matched @ rest"
    using s r3 q r5(2) q3 by (simp add: mt)
  moreover have "dquote \<notin> set val" unfolding kv by (auto dest: set_takeWhileD)
  ultimately show ?thesis by simp
qed

lemma fixUnescapedQuotes_identity: "fixUnescapedQuotes s = s"
proof (induction s rule: fixUnescapedQuotes.induct)
  case 1
  show ?case by simp
next
  case (2 c cs)
  show ?case
  proof (cases "match_key_value (c # cs)")
    case None
    have "fixUnescapedQuotes cs = cs" using 2(1)[OF None] .
    then show ?thesis using None by simp
  next
    case (Some x)
    obtain matched key val rest where x: "x = (matched, key, val, rest)"
      by (metis prod_cases4)
    have m: "match_key_value (c # cs) = Some (matched, key, val, rest)"
      unfolding x[symmetric] by (rule Some)
    have d1: "c # cs = matched @ rest" and d2: "dquote \<notin> set val"
      using match_key_value_SomeD[OF m] by blast+
    have cb: "fix_callback matched key val = matched"
      using d2 by (simp add: fix_callback_def str_includes_single)
    have ih: "fixUnescapedQuotes rest = rest"
      by (rule 2(2)[OF Some x[symmetric] refl refl])
    have "fixUnescapedQuotes (c # cs) = fix_callback matched key val @ fixUnescapedQuotes rest"
      using m by simp
    also have "\<dots> = matched @ rest" by (simp only: cb ih)
    also have "\<dots> = c # cs" by (simp only: d1)
    finally show ?thesis .
  qed
qed



text \<open>
  C5.  The claim: an unescaped quote inside a description string is escaped by
  \<^verbatim>\<open>fixUnescapedQuotes\<close>.  The function returns such a payload unchanged: the second group
  of its pattern cannot hold a quote, so the callback never rewrites a match (the lemma above
  shows that the function changes no text at all).
\<close>

theorem fixUnescapedQuotes_leaves_embedded_quote:
  \<open>fixUnescapedQuotes ''{"description": "This is a "quoted" word"}''
     = ''{"description": "This is a "quoted" word"}''\<close>
  by code_simp

section \<open>Properties of the heuristic parser\<close>

subsection \<open>Domain detection\<close>

lemma add_to_zero: "add_to d 0 scores = scores"
  by (induction scores) (auto simp: add_to_def)

lemma increment_add_to: "increment d (add_to d n scores) = add_to d (n + 1) scores"
  by (induction scores) (auto simp: add_to_def increment_def)

lemma keyword_loop:
  "foldl (\<lambda>scores keyword. if P keyword then increment d scores else scores) (add_to d n scores) kws
     = add_to d (n + int (length (filter P kws))) scores"
proof (induction kws arbitrary: n)
  case Nil
  then show ?case by simp
next
  case (Cons k ks)
  show ?case
  proof (cases "P k")
    case True
    then show ?thesis using Cons[of "n + 1"] by (simp add: increment_add_to add.assoc)
  next
    case False
    then show ?thesis using Cons[of n] by simp
  qed
qed

lemma keyword_loop0:
  "foldl (\<lambda>scores keyword. if P keyword then increment d scores else scores) scores kws
     = add_to d (int (length (filter P kws))) scores"
  using keyword_loop[of P d 0 scores kws] by (simp add: add_to_zero)

lemma all_domains_complete: "d \<in> set all_domains"
  by (cases d) (simp_all add: all_domains_def)

lemma score_domains_eq:
  "score_domains (toLowerCase text) = map (\<lambda>d. (d, domain_score text d)) all_domains"
  by (simp add: score_domains_def keyword_loop0 DOMAIN_PATTERNS_def initial_scores_def add_to_def
      all_domains_def domain_score_def keywords_of_def)

lemma sort_key_head:
  assumes "sort_key f xs = e # rest"
  shows "e \<in> set xs \<and> (\<forall>x \<in> set xs. f e \<le> f x) \<and> e = hd (filter (\<lambda>y. f y = f e) xs)"
proof -
  have s: "sorted (map f (e # rest))" using sorted_sort_key[of f xs] assms by simp
  have mem: "set (e # rest) = set xs" using set_sort[of f xs] assms by simp
  then have e_in: "e \<in> set xs" by auto
  have min: "\<forall>x \<in> set xs. f e \<le> f x" using s mem by auto
  have "filter (\<lambda>y. f y = f e) (sort_key f xs) = filter (\<lambda>y. f y = f e) xs"
    by (rule sort_key_stable)
  then have "filter (\<lambda>y. f y = f e) xs = e # filter (\<lambda>y. f y = f e) rest" using assms by simp
  then have "hd (filter (\<lambda>y. f y = f e) xs) = e" by simp
  then show ?thesis using e_in min by simp
qed

lemma index_of_first:
  "Q d' \<Longrightarrow> d' \<in> set ds \<Longrightarrow> index_of (hd (filter Q ds)) ds \<le> index_of d' ds"
  by (induction ds) auto

lemma hd_filter_map:
  "hd (filter (\<lambda>y. Q (snd y)) (map (\<lambda>d. (d, g d)) ds)) = (\<lambda>d. (d, g d)) (hd (filter (\<lambda>d. Q (g d)) ds))"
  if "\<exists>d \<in> set ds. Q (g d)"
  using that by (induction ds) auto

text \<open>
  C7 (amended: a keyword of the table counts once, however often it occurs in the text).
  For every text, the scores computed by the two loops are, domain by domain, the number of
  keywords of the domain's table that occur in the lower-cased text.  Detection
  returns nothing exactly when every score is zero; otherwise it returns a domain whose
  score is positive and the highest, and among the domains with that score the one declared
  first in the table.
\<close>

theorem detectDomain_highest_score_first_declared:
  "(detectDomain text = None \<longleftrightarrow> (\<forall>d. domain_score text d = 0))
   \<and> (\<forall>d. detectDomain text = Some d \<longrightarrow>
          0 < domain_score text d
          \<and> (\<forall>d'. domain_score text d' \<le> domain_score text d)
          \<and> (\<forall>d'. domain_score text d' = domain_score text d
                  \<longrightarrow> declaration_index d \<le> declaration_index d'))
   \<and> score_domains (toLowerCase text) = map (\<lambda>d. (d, domain_score text d)) all_domains"
proof -
  define xs where "xs = map (\<lambda>d. (d, domain_score text d)) all_domains"
  define f where "f = (\<lambda>e :: Domain \<times> int. - snd e)"
  have sc: "score_domains (toLowerCase text) = xs" unfolding xs_def by (rule score_domains_eq)
  have "length (sort_key f xs) = length xs" by simp
  then have "sort_key f xs \<noteq> []" by (auto simp: xs_def all_domains_def)
  then obtain e rest where srt: "sort_key f xs = e # rest" by (cases "sort_key f xs") auto
  have dd: "detectDomain text = (if snd e > 0 then Some (fst e) else None)"
    by (simp add: detectDomain_def Let_def sc sort_by_score_desc_def f_def[symmetric] srt)
  from sort_key_head[OF srt]
  have e_in: "e \<in> set xs" and mx: "\<forall>x \<in> set xs. f e \<le> f x"
    and first: "e = hd (filter (\<lambda>y. f y = f e) xs)" by blast+
  obtain d0 where e: "e = (d0, domain_score text d0)" using e_in by (auto simp: xs_def)
  have top: "domain_score text d' \<le> domain_score text d0" for d'
  proof -
    have "(d', domain_score text d') \<in> set xs" by (simp add: xs_def all_domains_complete)
    then show ?thesis using mx e by (auto simp: f_def)
  qed
  have ex: "\<exists>d \<in> set all_domains. domain_score text d = domain_score text d0"
    using all_domains_complete by blast
  have "(\<lambda>y. f y = f e) = (\<lambda>y. snd y = domain_score text d0)" by (auto simp: f_def e)
  then have "e = hd (filter (\<lambda>y. snd y = domain_score text d0) (map (\<lambda>d. (d, domain_score text d)) all_domains))"
    using first by (simp add: xs_def)
  also have "\<dots> = (\<lambda>d. (d, domain_score text d)) (hd (filter (\<lambda>d. domain_score text d = domain_score text d0) all_domains))"
    using hd_filter_map[of all_domains "\<lambda>n. n = domain_score text d0" "domain_score text"] ex by simp
  finally have d0_first: "d0 = hd (filter (\<lambda>d. domain_score text d = domain_score text d0) all_domains)"
    by (simp add: e)
  have tie: "declaration_index d0 \<le> declaration_index d'" if "domain_score text d' = domain_score text d0" for d'
    using index_of_first[of "\<lambda>d. domain_score text d = domain_score text d0" d' all_domains] that
      all_domains_complete d0_first by (simp add: declaration_index_def)
  have nonneg: "0 \<le> domain_score text d" for d by (simp add: domain_score_def)
  have none_iff: "detectDomain text = None \<longleftrightarrow> (\<forall>d. domain_score text d = 0)"
  proof
    assume "detectDomain text = None"
    then have "domain_score text d0 \<le> 0" using dd e by (simp split: if_splits)
    then show "\<forall>d. domain_score text d = 0" using top nonneg by (metis order_antisym order_trans)
  next
    assume "\<forall>d. domain_score text d = 0"
    then show "detectDomain text = None" using dd e by simp
  qed
  have some: "\<forall>d. detectDomain text = Some d \<longrightarrow>
          0 < domain_score text d
          \<and> (\<forall>d'. domain_score text d' \<le> domain_score text d)
          \<and> (\<forall>d'. domain_score text d' = domain_score text d
                  \<longrightarrow> declaration_index d \<le> declaration_index d')"
  proof (intro allI impI)
    fix d assume "detectDomain text = Some d"
    then have "d = d0" "0 < domain_score text d0" using dd e by (simp_all split: if_splits)
    then show "0 < domain_score text d
          \<and> (\<forall>d'. domain_score text d' \<le> domain_score text d)
          \<and> (\<forall>d'. domain_score text d' = domain_score text d
                  \<longrightarrow> declaration_index d \<le> declaration_index d')"
      using top tie by simp
  qed
  show ?thesis using none_iff some sc xs_def by simp
qed

theorem detectDomain_highest_score_first_declared_witness:
  "detectDomain ''show an api page'' = Some frontend
   \<and> domain_score ''show an api page'' backend = domain_score ''show an api page'' frontend
   \<and> declaration_index frontend \<le> declaration_index backend
   \<and> domain_score ''show an api page'' mobile \<le> domain_score ''show an api page'' frontend
   \<and> detectDomain ''xyz'' = None \<and> domain_score ''xyz'' data = 0
   \<and> domain_score ''api api api'' backend = 1"
proof -
  have d: "detectDomain ''show an api page'' = Some frontend" by code_simp
  have t: "domain_score ''show an api page'' backend = domain_score ''show an api page'' frontend"
    by code_simp
  have n: "detectDomain ''xyz'' = None" by code_simp
  have o: "domain_score ''api api api'' backend = 1" by code_simp
  from detectDomain_highest_score_first_declared[of "''show an api page''"] d
  have a: "\<forall>d'. domain_score ''show an api page'' d' \<le> domain_score ''show an api page'' frontend"
    and b: "\<forall>d'. domain_score ''show an api page'' d' = domain_score ''show an api page'' frontend
                  \<longrightarrow> declaration_index frontend \<le> declaration_index d'"
    by blast+
  from detectDomain_highest_score_first_declared[of "''xyz''"] n
  have z: "\<forall>d. domain_score ''xyz'' d = 0" by blast
  show ?thesis using d t n o a b z by blast
qed


text \<open>
  In the text below the keyword of the backend table occurs three times and two keywords of
  the frontend table once each.  Counting occurrences ranks backend first, with 3 against 2;
  the code counts the keyword once and returns frontend, with 2 against 1.
\<close>

theorem keyword_occurrences_counterexample:
  "detectDomain ''api api api page form'' = Some frontend
   \<and> detectDomain_by_occurrences ''api api api page form'' = Some backend
   \<and> map (occurrence_score ''api api api page form'') all_domains = [2, 3, 0, 0, 0, 0, 0, 0]
   \<and> map (domain_score ''api api api page form'') all_domains = [2, 1, 0, 0, 0, 0, 0, 0]"
  by code_simp

subsection \<open>Components\<close>

lemma distinct_set_add: "distinct xs \<Longrightarrow> distinct (set_add xs x)"
  by (simp add: set_add_def)

lemma distinct_foldl_set_add: "distinct acc \<Longrightarrow> distinct (foldl set_add acc xs)"
  by (induction xs arbitrary: acc) (simp_all add: distinct_set_add)

lemma extractComponents_bounded: "length (extractComponents text) \<le> 10 \<and> distinct (extractComponents text)"
  by (simp add: extractComponents_def Let_def distinct_foldl_set_add)

text \<open>
  C10.  For every input that the parser accepts, the list of components it extracts has at
  most 10 entries and no entry twice.
\<close>

theorem components_at_most_ten_distinct:
  assumes "parse input = Inr out"
  shows "length (h_components out) \<le> 10 \<and> distinct (h_components out)"
proof -
  have "h_components out = extractComponents (trim input)"
    using assms by (auto simp: parse_def Let_def split: if_splits)
  then show ?thesis using extractComponents_bounded by simp
qed

theorem components_at_most_ten_distinct_witness:
  "(case parse ''The UserForm has a DataTable and a UserForm'' of
      Inl e \<Rightarrow> False
    | Inr out \<Rightarrow> h_components out = [''The'', ''UserForm'', ''DataTable'']
        \<and> length (h_components out) \<le> 10 \<and> distinct (h_components out))"
proof -
  let ?x = "''The UserForm has a DataTable and a UserForm''"
  have t: "trim ?x = ?x" by code_simp
  have l: "\<not> length ?x < 20" by simp
  have c: "extractComponents ?x = [''The'', ''UserForm'', ''DataTable'']" by code_simp
  obtain out where p: "parse ?x = Inr out" and hc: "h_components out = extractComponents ?x"
    using l by (simp add: parse_def Let_def t)
  show ?thesis using components_at_most_ten_distinct[OF p] p hc c by simp
qed

section \<open>Properties of the processing pipeline\<close>

subsection \<open>Trimming, the cache and the mandatory fields\<close>

lemma trim_Cons_nonspace:
  "\<not> isSpace x \<Longrightarrow> rev (dropWhile isSpace (rev (x # xs))) = x # rev (dropWhile isSpace (rev xs))"
  by (simp add: dropWhile_append)

lemma trim_idem: "trim (trim s) = trim s"
proof -
  define u where "u = dropWhile isSpace s"
  have t: "trim s = rev (dropWhile isSpace (rev u))" by (simp add: trim_def u_def)
  have front: "dropWhile isSpace (trim s) = trim s"
  proof (cases u)
    case Nil
    then show ?thesis by (simp add: t)
  next
    case (Cons x xs)
    then have nx: "\<not> isSpace x" using hd_dropWhile[of isSpace s] by (simp add: u_def)
    have "trim s = x # rev (dropWhile isSpace (rev xs))"
      unfolding t Cons using nx by (rule trim_Cons_nonspace)
    then show ?thesis using nx by simp
  qed
  have "trim (trim s) = rev (dropWhile isSpace (rev (dropWhile isSpace (trim s))))"
    by (rule trim_def)
  also have "\<dots> = rev (dropWhile isSpace (rev (trim s)))" by (simp only: front)
  also have "\<dots> = rev (dropWhile isSpace (dropWhile isSpace (rev u)))"
    by (simp only: t rev_rev_ident)
  also have "\<dots> = rev (dropWhile isSpace (rev u))" by (simp only: dropWhile_idem)
  also have "\<dots> = trim s" by (simp only: t)
  finally show ?thesis .
qed

lemma set_update_subset: "set (AList.update k v xs) \<subseteq> insert (k, v) (set xs)"
  by (induction xs) auto

lemma set_delete_subset: "set (AList.delete k xs) \<subseteq> set xs"
  by (auto simp: AList.delete_eq)

lemma evict_oldest_subset: "set (c_cache (evict_oldest c)) \<subseteq> set (c_cache c)"
proof (cases "c_cache c")
  case Nil
  then show ?thesis by (simp add: evict_oldest_def)
next
  case (Cons a list)
  obtain k e where a: "a = (k, e)" by (cases a) auto
  show ?thesis using set_delete_subset[of k "c_cache c"]
    by (auto simp: evict_oldest_def Cons a)
qed

lemma cache_set_entries:
  "set (c_cache (cache_set H c i p m v t))
     \<subseteq> insert (generateKey H i p m, \<lparr> e_key = generateKey H i p m, e_value = v, e_timestamp = t \<rparr>)
         (set (c_cache c))"
proof -
  define key where "key = generateKey H i p m"
  define c1 where "c1 = (if map_of (c_cache c) key \<noteq> None then c\<lparr> c_cache := AList.delete key (c_cache c) \<rparr> else c)"
  define c2 where "c2 = (if int (length (c_cache c1)) \<ge> c_maxSize c1 then evict_oldest c1 else c1)"
  have s1: "set (c_cache c1) \<subseteq> set (c_cache c)" using set_delete_subset[of key "c_cache c"] by (simp add: c1_def)
  have s2: "set (c_cache c2) \<subseteq> set (c_cache c1)" using evict_oldest_subset[of c1] by (simp add: c2_def)
  have eq: "c_cache (cache_set H c i p m v t) = AList.update key \<lparr> e_key = key, e_value = v, e_timestamp = t \<rparr> (c_cache c2)"
    by (simp add: cache_set_def Let_def key_def c1_def c2_def)
  show ?thesis unfolding eq key_def[symmetric]
    using set_update_subset[of key "\<lparr> e_key = key, e_value = v, e_timestamp = t \<rparr>" "c_cache c2"] s1 s2 by blast
qed

lemma cache_set_valid:
  assumes "cache_valid c" "mandatory_fields v"
  shows "cache_valid (cache_set H c i p m v t)"
  using assms cache_set_entries[of H c i p m v t]
  unfolding cache_valid_def list_all_iff by fastforce

lemma cache_get_hit:
  assumes "cache_get H c i p m = (Some v, c')" "cache_valid c"
  shows "mandatory_fields v \<and> cache_valid c'"
proof -
  define key where "key = generateKey H i p m"
  from assms(1) obtain entry where e: "map_of (c_cache c) key = Some entry" "v = e_value entry"
    and c': "c_cache c' = AList.update key entry (AList.delete key (c_cache c))"
    by (auto simp: cache_get_def Let_def key_def split: option.splits)
  have mem: "(key, entry) \<in> set (c_cache c)" using e(1) by (rule map_of_SomeD)
  then have mv: "mandatory_fields v" using assms(2) e(2) unfolding cache_valid_def list_all_iff by fastforce
  have "set (c_cache c') \<subseteq> set (c_cache c)"
    unfolding c' using set_update_subset[of key entry "AList.delete key (c_cache c)"]
      set_delete_subset[of key "c_cache c"] mem by blast
  then have "cache_valid c'" using assms(2) unfolding cache_valid_def list_all_iff by blast
  then show ?thesis using mv by simp
qed

lemma cache_get_miss:
  assumes "cache_get H c i p m = (None, c')"
  shows "c_cache c' = c_cache c \<and> c_maxSize c' = c_maxSize c \<and> map_of (c_cache c) (generateKey H i p m) = None"
  using assms by (auto simp: cache_get_def Let_def split: option.splits)

lemma validate_openrouter_Inr: "validate_openrouter parsed = Inr spec \<Longrightarrow> mandatory_fields spec"
  by (auto simp: validate_openrouter_def missing_required_def mandatory_fields_def Let_def split: if_splits)

lemma validate_plain_Inr: "validate_plain parsed = Inr spec \<Longrightarrow> mandatory_fields spec"
  by (auto simp: validate_plain_def mandatory_fields_def split: if_splits)

lemma ai_refinement_Inr: "ai_refinement env provider options = Inr spec \<Longrightarrow> mandatory_fields spec"
  by (cases provider)
     (auto simp: ai_refinement_def adapter_refine_def split: sum.splits
           dest: validate_openrouter_Inr validate_plain_Inr)

lemma set_metadata_fields [simp]: "mandatory_fields (set_metadata spec m method) = mandatory_fields spec"
  by (simp add: set_metadata_def mandatory_fields_def)

lemma domain_name_nonempty: "domain_name d \<noteq> []"
  by (cases d) simp_all

lemma heuristicToSpec_fields: "mandatory_fields (heuristicToSpec h)"
  by (simp add: heuristicToSpec_def mandatory_fields_def truthy_def domain_name_nonempty split: option.splits)

lemma wizard_refine_fields:
  "wizard_validates input h a \<Longrightarrow> mandatory_fields (wizard_refine input h a)"
  by (auto simp: wizard_refine_def wizard_validates_def mandatory_fields_def truthy_def Let_def domain_name_nonempty)

lemma refine_or_fall_back_fields:
  assumes "wizard_validates normalized h (env_answers env)"
  shows "mandatory_fields (fst (refine_or_fall_back H env options normalized h))"
  using assms
  by (auto simp: refine_or_fall_back_def Let_def heuristicToSpec_fields wizard_refine_fields
           split: sum.splits dest: ai_refinement_Inr)

lemma parse_accepts:
  assumes "20 \<le> length (trim input)"
  shows "\<exists>h. parse (trim input) = Inr h"
  using assms by (simp add: parse_def Let_def trim_idem)

lemma process_unfold:
  assumes "20 \<le> length (trim input)"
  obtains h where "parse (trim input) = Inr h"
    and "process H env cache input options =
      (case (if chosen_useCache env options
             then cache_get H cache (trim input) (chosen_provider env options) (chosen_model env options)
             else (None, cache)) of
         (Some spec, cache1) \<Rightarrow> Inr (spec, cache1)
       | (None, cache1) \<Rightarrow>
           Inr (fst (refine_or_fall_back H env options (trim input) h),
                if chosen_useCache env options \<and> snd (refine_or_fall_back H env options (trim input) h)
                then cache_set H cache1 (trim input) (chosen_provider env options)
                       (chosen_model env options)
                       (fst (refine_or_fall_back H env options (trim input) h)) (env_now env)
                else cache1))"
proof -
  from parse_accepts[OF assms] obtain h where h: "parse (trim input) = Inr h" by blast
  have ne: "input \<noteq> []" using assms by (auto simp: trim_def)
  have "process H env cache input options =
      (case (if chosen_useCache env options
             then cache_get H cache (trim input) (chosen_provider env options) (chosen_model env options)
             else (None, cache)) of
         (Some spec, cache1) \<Rightarrow> Inr (spec, cache1)
       | (None, cache1) \<Rightarrow>
           Inr (fst (refine_or_fall_back H env options (trim input) h),
                if chosen_useCache env options \<and> snd (refine_or_fall_back H env options (trim input) h)
                then cache_set H cache1 (trim input) (chosen_provider env options)
                       (chosen_model env options)
                       (fst (refine_or_fall_back H env options (trim input) h)) (env_now env)
                else cache1))"
    using assms ne h
    by (simp add: process_def Let_def split: prod.splits option.splits)
  then show ?thesis using h that by blast
qed


lemma refinement_method_set_metadata [simp]:
  "refinement_method (set_metadata spec m method) = Some method"
  by (simp add: refinement_method_def set_metadata_def)

lemma refine_or_fall_back_cases:
  "(\<exists>s. ai_refinement env (chosen_provider env options) options = Inr s
        \<and> refinement_method (fst (refine_or_fall_back H env options n h)) = Some rm_ai
        \<and> snd (refine_or_fall_back H env options n h))
   \<or> (\<exists>e. ai_refinement env (chosen_provider env options) options = Inl e
        \<and> wizard_enabled options \<and> env_isTTY env \<and> env_useWizard env
        \<and> refinement_method (fst (refine_or_fall_back H env options n h)) = Some rm_wizard
        \<and> snd (refine_or_fall_back H env options n h))
   \<or> (\<exists>e. ai_refinement env (chosen_provider env options) options = Inl e
        \<and> \<not> (wizard_enabled options \<and> env_isTTY env \<and> env_useWizard env)
        \<and> refinement_method (fst (refine_or_fall_back H env options n h)) = Some rm_heuristic
        \<and> \<not> snd (refine_or_fall_back H env options n h))"
  by (cases "ai_refinement env (chosen_provider env options) options")
     (auto simp: refine_or_fall_back_def Let_def)

lemma map_of_update_same: "map_of (AList.update k v xs) k = Some v"
  by (simp add: update_conv')

lemma cache_set_lookup:
  "map_of (c_cache (cache_set H c i p m v t)) (generateKey H i p m)
     = Some \<lparr> e_key = generateKey H i p m, e_value = v, e_timestamp = t \<rparr>"
  by (simp add: cache_set_def Let_def map_of_update_same)


lemma map_sum_InrD: "map_sum f g r = Inr y \<Longrightarrow> \<exists>x. r = Inr x \<and> g x = y"
  by (cases r) auto


subsection \<open>Every run ends with a specification\<close>

text \<open>
  For every input whose trimmed text has at least 20 characters and every outcome of the
  refinement (it succeeds; it fails and the wizard is available and accepted; it fails and
  the wizard is declined; it fails and the wizard is unavailable or disabled), the pipeline
  does not fail: it returns a specification whose title, domain and description are present
  and non-empty and whose list of requirements is present.  The specifications stored in the
  cache are of this kind before the call and again after it, and the wizard's title and
  description are those its validators accepted.
\<close>

lemma process_returns_spec_with_mandatory_fields:
  assumes "20 \<le> length (trim input)" and "cache_valid cache"
    and "\<forall>h. parse (trim input) = Inr h \<longrightarrow> wizard_validates (trim input) h (env_answers env)"
  shows "\<exists>spec cache'. process sha256 env cache input options = Inr (spec, cache')
           \<and> mandatory_fields spec \<and> cache_valid cache'"
proof -
  from process_unfold[OF assms(1), of sha256 env cache options]
  obtain h where h: "parse (trim input) = Inr h"
    and p: "process sha256 env cache input options =
      (case (if chosen_useCache env options
             then cache_get sha256 cache (trim input) (chosen_provider env options) (chosen_model env options)
             else (None, cache)) of
         (Some spec, cache1) \<Rightarrow> Inr (spec, cache1)
       | (None, cache1) \<Rightarrow>
           Inr (fst (refine_or_fall_back sha256 env options (trim input) h),
                if chosen_useCache env options \<and> snd (refine_or_fall_back sha256 env options (trim input) h)
                then cache_set sha256 cache1 (trim input) (chosen_provider env options)
                       (chosen_model env options)
                       (fst (refine_or_fall_back sha256 env options (trim input) h)) (env_now env)
                else cache1))"
    by blast
  let ?r = "refine_or_fall_back sha256 env options (trim input) h"
  have wv: "wizard_validates (trim input) h (env_answers env)" using assms(3) h by blast
  have rf: "mandatory_fields (fst ?r)" using wv by (rule refine_or_fall_back_fields)
  obtain cached cache1 where g: "(if chosen_useCache env options
             then cache_get sha256 cache (trim input) (chosen_provider env options) (chosen_model env options)
             else (None, cache)) = (cached, cache1)" by fastforce
  show ?thesis
  proof (cases cached)
    case (Some spec)
    then have uc: "chosen_useCache env options" using g by (auto split: if_splits)
    then have "cache_get sha256 cache (trim input) (chosen_provider env options) (chosen_model env options) = (Some spec, cache1)"
      using g Some by simp
    from cache_get_hit[OF this assms(2)] have "mandatory_fields spec \<and> cache_valid cache1" .
    moreover have "process sha256 env cache input options = Inr (spec, cache1)"
      unfolding p g Some by simp
    ultimately show ?thesis by blast
  next
    case None
    have c1: "cache_valid cache1"
    proof (cases "chosen_useCache env options")
      case True
      then have "cache_get sha256 cache (trim input) (chosen_provider env options) (chosen_model env options) = (None, cache1)"
        using g None by simp
      from cache_get_miss[OF this] show ?thesis using assms(2) by (simp add: cache_valid_def)
    next
      case False
      then show ?thesis using g assms(2) by simp
    qed
    have c2: "cache_valid (cache_set sha256 cache1 (trim input) (chosen_provider env options)
                       (chosen_model env options) (fst ?r) (env_now env))"
      using c1 rf by (rule cache_set_valid)
    have "process sha256 env cache input options = Inr (fst ?r,
                if chosen_useCache env options \<and> snd ?r
                then cache_set sha256 cache1 (trim input) (chosen_provider env options)
                       (chosen_model env options) (fst ?r) (env_now env)
                else cache1)"
      unfolding p g None by simp
    then show ?thesis using rf c1 c2 by auto
  qed
qed

lemma process_returns_spec_with_mandatory_fields_example:
  "20 \<le> length (trim demo_input) \<and> cache_valid (new_LRUCache 50)
   \<and> (\<forall>h. wizard_validates (trim demo_input) h (env_answers env_wizard))
   \<and> (\<exists>spec cache'. process demo_digest env_wizard (new_LRUCache 50) demo_input no_options
                        = Inr (spec, cache')
          \<and> mandatory_fields spec \<and> cache_valid cache')"
proof -
  have h1: "20 \<le> length (trim demo_input)" by code_simp
  have h2: "cache_valid (new_LRUCache 50)" by (simp add: cache_valid_def new_LRUCache_def)
  have h3: "\<forall>h. parse (trim demo_input) = Inr h \<longrightarrow> wizard_validates (trim demo_input) h (env_answers env_wizard)"
    and h3': "\<forall>h. wizard_validates (trim demo_input) h (env_answers env_wizard)"
    by (simp_all add: wizard_validates_def wizard_title_def wizard_description_def prompt_input_def
          env_wizard_def env_offline_def demo_answers_def)
  show ?thesis
    using process_returns_spec_with_mandatory_fields[OF h1 h2 h3, of demo_digest no_options] h1 h2 h3'
    by blast
qed


text \<open>
  The heuristic draft has a requirement as soon as the text has a sentence: the list of
  requirements the parser extracts is empty exactly when there is no sentence, and the
  fallback passes the list on as it is.
\<close>

lemma extractRequirements_empty_iff:
  "extractRequirements sentences = [] \<longleftrightarrow> sentences = []"
  by (auto simp: extractRequirements_def Let_def)

lemma heuristic_requirements_empty_iff:
  assumes "parse normalized = Inr h"
  shows "s_requirements (heuristicToSpec h) = Some (h_requirements h)"
    and "h_requirements h = [] \<longleftrightarrow> splitIntoSentences (trim normalized) = []"
  using assms
  by (auto simp: parse_def Let_def heuristicToSpec_def extractRequirements_empty_iff
           split: if_splits)

text \<open>
  C1.  The claim: for every input of at least 20 characters and every outcome of the
  refinement, the specification returned has a title, a domain, a description and
  requirements that are present and non-empty.  Twenty full stops are an input of 20
  characters without a single sentence.  With no key for the provider and no terminal, the
  pipeline falls back to the heuristic draft and returns a specification whose list of
  requirements is empty: the fallback gives the title, the domain and the description a
  non-empty default and the requirements the default \<^verbatim>\<open>[]\<close>.
\<close>

theorem process_returns_empty_requirements:
  "map_sum id (s_requirements \<circ> fst)
     (process demo_digest env_offline (new_LRUCache 50) ''....................'' no_options)
   = Inr (Some [])
   \<and> map_sum id (refinement_method \<circ> fst)
     (process demo_digest env_offline (new_LRUCache 50) ''....................'' no_options)
   = Inr (Some rm_heuristic)
   \<and> length ''....................'' = 20"
  by code_simp


subsection \<open>What enters the cache\<close>

text \<open>
  Take a call that does not hit the cache.  The method recorded in the returned
  specification tells the path: the refinement succeeded, or it failed and the user accepted
  the wizard on a terminal, or it failed and the heuristic draft was used.  A specification
  of the heuristic fallback is never inserted: the entries of the cache are those before the
  call.  With caching enabled, a specification produced by the refinement or by the wizard
  is stored under the key of the request.
\<close>

lemma heuristic_fallback_is_not_cached:
  assumes "20 \<le> length (trim input)"
    and "process sha256 env cache input options = Inr (spec, cache')"
    and "chosen_useCache env options \<longrightarrow>
           \<not> cache_has sha256 cache (trim input) (chosen_provider env options) (chosen_model env options)"
  shows "(refinement_method spec = Some rm_heuristic \<longrightarrow> c_cache cache' = c_cache cache)
       \<and> (refinement_method spec \<noteq> Some rm_heuristic \<and> chosen_useCache env options \<longrightarrow>
            map_of (c_cache cache')
              (generateKey sha256 (trim input) (chosen_provider env options) (chosen_model env options))
              = Some \<lparr> e_key = generateKey sha256 (trim input) (chosen_provider env options)
                                (chosen_model env options),
                        e_value = spec, e_timestamp = env_now env \<rparr>)
       \<and> (refinement_method spec = Some rm_ai \<longleftrightarrow>
            (\<exists>s. ai_refinement env (chosen_provider env options) options = Inr s))
       \<and> (refinement_method spec = Some rm_wizard \<longleftrightarrow>
            (\<exists>e. ai_refinement env (chosen_provider env options) options = Inl e)
            \<and> wizard_enabled options \<and> env_isTTY env \<and> env_useWizard env)
       \<and> (refinement_method spec = Some rm_heuristic \<longleftrightarrow>
            (\<exists>e. ai_refinement env (chosen_provider env options) options = Inl e)
            \<and> \<not> (wizard_enabled options \<and> env_isTTY env \<and> env_useWizard env))"
proof -
  from process_unfold[OF assms(1), of sha256 env cache options]
  obtain h where h: "parse (trim input) = Inr h"
    and p: "process sha256 env cache input options =
      (case (if chosen_useCache env options
             then cache_get sha256 cache (trim input) (chosen_provider env options) (chosen_model env options)
             else (None, cache)) of
         (Some spec, cache1) \<Rightarrow> Inr (spec, cache1)
       | (None, cache1) \<Rightarrow>
           Inr (fst (refine_or_fall_back sha256 env options (trim input) h),
                if chosen_useCache env options \<and> snd (refine_or_fall_back sha256 env options (trim input) h)
                then cache_set sha256 cache1 (trim input) (chosen_provider env options)
                       (chosen_model env options)
                       (fst (refine_or_fall_back sha256 env options (trim input) h)) (env_now env)
                else cache1))"
    by blast
  let ?r = "refine_or_fall_back sha256 env options (trim input) h"
  let ?key = "generateKey sha256 (trim input) (chosen_provider env options) (chosen_model env options)"
  obtain cache1 where g: "(if chosen_useCache env options
             then cache_get sha256 cache (trim input) (chosen_provider env options) (chosen_model env options)
             else (None, cache)) = (None, cache1)" and c1: "c_cache cache1 = c_cache cache"
  proof (cases "chosen_useCache env options")
    case True
    then have "map_of (c_cache cache) ?key = None" using assms(3) by (simp add: cache_has_def)
    then have "cache_get sha256 cache (trim input) (chosen_provider env options) (chosen_model env options)
        = (None, cache\<lparr> c_stats := (c_stats cache)\<lparr> st_misses := st_misses (c_stats cache) + 1 \<rparr> \<rparr>)"
      by (simp add: cache_get_def Let_def)
    then show ?thesis using True that by simp
  next
    case False
    then show ?thesis using that by simp
  qed
  have res: "spec = fst ?r"
    "cache' = (if chosen_useCache env options \<and> snd ?r
                then cache_set sha256 cache1 (trim input) (chosen_provider env options)
                       (chosen_model env options) (fst ?r) (env_now env)
                else cache1)"
    using assms(2) unfolding p g by simp_all
  have stored: "chosen_useCache env options \<and> snd ?r \<longrightarrow>
      map_of (c_cache cache') ?key = Some \<lparr> e_key = ?key, e_value = spec, e_timestamp = env_now env \<rparr>"
    by (simp add: res cache_set_lookup)
  have kept: "\<not> snd ?r \<longrightarrow> c_cache cache' = c_cache cache"
    by (simp add: res c1)
  from refine_or_fall_back_cases[of env options sha256 "trim input" h]
  show ?thesis
  proof (elim disjE exE conjE)
    fix s assume a: "ai_refinement env (chosen_provider env options) options = Inr s"
      "refinement_method (fst ?r) = Some rm_ai" "snd ?r"
    then show ?thesis using stored by (simp add: res(1)[symmetric])
  next
    fix e assume a: "ai_refinement env (chosen_provider env options) options = Inl e"
      "wizard_enabled options" "env_isTTY env" "env_useWizard env"
      "refinement_method (fst ?r) = Some rm_wizard" "snd ?r"
    then show ?thesis using stored by (simp add: res(1)[symmetric])
  next
    fix e assume a: "ai_refinement env (chosen_provider env options) options = Inl e"
      "\<not> (wizard_enabled options \<and> env_isTTY env \<and> env_useWizard env)"
      "refinement_method (fst ?r) = Some rm_heuristic" "\<not> snd ?r"
    then show ?thesis using kept by (simp add: res(1)[symmetric])
  qed
qed

lemma heuristic_fallback_is_not_cached_example:
  "20 \<le> length (trim demo_input)
   \<and> \<not> cache_has demo_digest (new_LRUCache 50) (trim demo_input)
         (chosen_provider env_offline no_options) (chosen_model env_offline no_options)
   \<and> (\<exists>spec cache'. process demo_digest env_offline (new_LRUCache 50) demo_input no_options
                        = Inr (spec, cache')
          \<and> refinement_method spec = Some rm_heuristic \<and> c_cache cache' = [])"
proof -
  have h1: "20 \<le> length (trim demo_input)" by code_simp
  have h3: "\<not> cache_has demo_digest (new_LRUCache 50) (trim demo_input)
         (chosen_provider env_offline no_options) (chosen_model env_offline no_options)"
    by (simp add: cache_has_def new_LRUCache_def)
  have "map_sum id (refinement_method \<circ> fst)
     (process demo_digest env_offline (new_LRUCache 50) demo_input no_options)
   = Inr (Some rm_heuristic)"
    by code_simp
  then obtain spec cache' where
    p: "process demo_digest env_offline (new_LRUCache 50) demo_input no_options = Inr (spec, cache')"
    and m: "refinement_method spec = Some rm_heuristic"
    by (auto dest!: map_sum_InrD)
  have "c_cache cache' = c_cache (new_LRUCache 50 :: VibeSpec LRUCache)"
    using heuristic_fallback_is_not_cached[OF h1 p] h3 m by blast
  then show ?thesis using h1 h3 p m by (simp add: new_LRUCache_def)
qed


text \<open>
  C2.  The claim: specifications produced by the wizard and by the heuristic fallback are
  never inserted into the cache; only those of a successful refinement are.  The refinement
  fails for want of a key, a terminal is attached and the user accepts the wizard: the
  specification built from the answers is stored in the cache under the key of the request,
  and a later call with the same text, now with a key and an answering provider, is served
  the wizard's specification from the cache.
\<close>

theorem wizard_result_is_cached:
  "map_sum id (refinement_method \<circ> fst)
     (process demo_digest env_wizard (new_LRUCache 50) demo_input no_options)
   = Inr (Some rm_wizard)
   \<and> map_sum id (cache_keys \<circ> snd)
     (process demo_digest env_wizard (new_LRUCache 50) demo_input no_options)
   = Inr [generateKey demo_digest demo_input openai ''gpt-4o-mini'']
   \<and> map_sum id (refinement_method \<circ> fst)
     (process demo_digest env_online
        (snd (projr (process demo_digest env_wizard (new_LRUCache 50) demo_input no_options)))
        demo_input no_options)
   = Inr (Some rm_wizard)
   \<and> map_sum id (refinement_method \<circ> fst)
     (process demo_digest env_online (new_LRUCache 50) demo_input no_options)
   = Inr (Some rm_ai)"
  by code_simp


subsection \<open>A second call with the same request\<close>

text \<open>
  Whatever the request, a call that finds the key in the cache returns the stored object
  as it is; stored by a successful refinement, its metadata says that the cache was not hit.
\<close>

lemma cache_hit_set_metadata:
  "cache_hit (set_metadata spec m method) = Some (pm_cache_hit (m_processing m))"
  by (simp add: cache_hit_def set_metadata_def)

lemma cache_hit_refine_or_fall_back:
  "cache_hit (fst (refine_or_fall_back H env options n h)) = Some False"
  by (cases "ai_refinement env (chosen_provider env options) options")
     (simp_all add: refine_or_fall_back_def Let_def cache_hit_set_metadata createMetadata_def)

lemma process_hit:
  assumes "20 \<le> length (trim input)" "chosen_useCache env options"
    and "map_of (c_cache cache)
           (generateKey H (trim input) (chosen_provider env options) (chosen_model env options))
         = Some entry"
  shows "\<exists>cache'. process H env cache input options = Inr (e_value entry, cache')
           \<and> st_hits (getStats cache') = st_hits (getStats cache) + 1"
proof -
  have ne: "input \<noteq> []" using assms(1) by (auto simp: trim_def)
  show ?thesis using assms ne
    by (simp add: process_def Let_def cache_get_def getStats_def)
qed

lemma second_call_returns_stored_spec:
  assumes "20 \<le> length (trim input)" "chosen_useCache env options"
    and "\<not> cache_has H cache (trim input) (chosen_provider env options) (chosen_model env options)"
    and "process H env cache input options = Inr (spec, cache')"
    and "refinement_method spec = Some rm_ai"
    and "20 \<le> length (trim input2)" "chosen_useCache env2 options2"
    and "toLowerCase (trim input2) = toLowerCase (trim input)"
    and "chosen_provider env2 options2 = chosen_provider env options"
    and "chosen_model env2 options2 = chosen_model env options"
  shows "\<exists>cache''. process H env2 cache' input2 options2 = Inr (spec, cache'')
           \<and> cache_hit spec = Some False
           \<and> st_hits (getStats cache'') = st_hits (getStats cache') + 1"
proof -
  from process_unfold[OF assms(1), of H env cache options]
  obtain h where h: "parse (trim input) = Inr h"
    and p: "process H env cache input options =
      (case (if chosen_useCache env options
             then cache_get H cache (trim input) (chosen_provider env options) (chosen_model env options)
             else (None, cache)) of
         (Some spec, cache1) \<Rightarrow> Inr (spec, cache1)
       | (None, cache1) \<Rightarrow>
           Inr (fst (refine_or_fall_back H env options (trim input) h),
                if chosen_useCache env options \<and> snd (refine_or_fall_back H env options (trim input) h)
                then cache_set H cache1 (trim input) (chosen_provider env options)
                       (chosen_model env options)
                       (fst (refine_or_fall_back H env options (trim input) h)) (env_now env)
                else cache1))"
    by blast
  let ?r = "refine_or_fall_back H env options (trim input) h"
  let ?key = "generateKey H (trim input) (chosen_provider env options) (chosen_model env options)"
  let ?c1 = "cache\<lparr> c_stats := (c_stats cache)\<lparr> st_misses := st_misses (c_stats cache) + 1 \<rparr> \<rparr>"
  have "map_of (c_cache cache) ?key = None" using assms(3) by (simp add: cache_has_def)
  then have g: "cache_get H cache (trim input) (chosen_provider env options) (chosen_model env options)
        = (None, ?c1)"
    by (simp add: cache_get_def Let_def)
  have res: "spec = fst ?r"
    "cache' = (if snd ?r
                then cache_set H ?c1 (trim input) (chosen_provider env options)
                       (chosen_model env options) (fst ?r) (env_now env)
                else ?c1)"
    using assms(4) assms(2) unfolding p g by simp_all
  have applied: "snd ?r"
    using refine_or_fall_back_cases[of env options H "trim input" h] assms(5)
    by (auto simp: res(1))
  have stored: "map_of (c_cache cache') ?key
      = Some \<lparr> e_key = ?key, e_value = spec, e_timestamp = env_now env \<rparr>"
    using applied by (simp add: res cache_set_lookup)
  have key2: "generateKey H (trim input2) (chosen_provider env2 options2) (chosen_model env2 options2) = ?key"
    using assms(8,9,10) by (simp add: generateKey_def Let_def trim_idem)
  have ch: "cache_hit spec = Some False" by (simp add: res(1) cache_hit_refine_or_fall_back)
  from process_hit[OF assms(6,7), of cache' H "\<lparr> e_key = ?key, e_value = spec, e_timestamp = env_now env \<rparr>"]
    stored key2
  show ?thesis using ch by simp
qed

text \<open>
  C3.  The claim: the second of two calls with the same normalised input, provider and
  model takes the cache-hit path and returns a specification whose metadata reports a cache
  hit.  The second call does take the cache-hit path (the counter of hits becomes 1) and the
  method is still the refinement, but the object returned is the stored one, with the
  metadata written at the first call: its \<^verbatim>\<open>cache_hit\<close> is false.
\<close>

theorem second_call_returns_cache_hit_false:
  "map_sum id (cache_hit \<circ> fst)
     (process demo_digest env_online
        (snd (projr (process demo_digest env_online (new_LRUCache 50) demo_input no_options)))
        demo_input no_options)
   = Inr (Some False)
   \<and> map_sum id (refinement_method \<circ> fst)
     (process demo_digest env_online
        (snd (projr (process demo_digest env_online (new_LRUCache 50) demo_input no_options)))
        demo_input no_options)
   = Inr (Some rm_ai)
   \<and> map_sum id (st_hits \<circ> getStats \<circ> snd)
     (process demo_digest env_online
        (snd (projr (process demo_digest env_online (new_LRUCache 50) demo_input no_options)))
        demo_input no_options)
   = Inr 1"
  by code_simp

end
